theory Spec2Isabelle
  imports Main "HOL-Library.Sublist"
begin

section \<open>The link crawler (crawler.go)\<close>

subsection \<open>State\<close>

text \<open>
  The struct \<^verbatim>\<open>WebCrawler\<close>. The collector and the mutex are not data of the model: every
  callback below is one critical section of the source, taken as one atomic step.
  \<^verbatim>\<open>visitedURLs\<close> is a Go \<^verbatim>\<open>map[string]bool\<close>; \<^verbatim>\<open>foundLinks\<close> is the sequence of appended
  links; the two counters are Go \<^verbatim>\<open>int\<close>s (64 bits on the supported platforms).
\<close>

record WebCrawler =
  visitedURLs :: "string \<rightharpoonup> bool"
  foundLinks :: "string list"
  maxPages :: int
  pagesVisited :: int

text \<open>Reading a Go map at a missing key gives the zero value, \<^verbatim>\<open>false\<close>.\<close>

definition map_get :: "(string \<rightharpoonup> bool) \<Rightarrow> string \<Rightarrow> bool" where
  "map_get m k = (case m k of None \<Rightarrow> False | Some b \<Rightarrow> b)"

text \<open>Addition on a 64-bit signed \<^verbatim>\<open>int\<close> wraps around.\<close>

definition int64_wrap :: "int \<Rightarrow> int" where
  "int64_wrap x = (x + 2 ^ 63) mod 2 ^ 64 - 2 ^ 63"

text \<open>
  \<^verbatim>\<open>NewWebCrawler(allowedDomains, maxPages)\<close>: the domains and the depth limit 3 go to the
  collector; the crawler itself keeps \<^verbatim>\<open>maxPages\<close>, an empty map and an empty slice.
\<close>

definition NewWebCrawler :: "string list \<Rightarrow> int \<Rightarrow> WebCrawler" where
  "NewWebCrawler allowedDomains mp =
     \<lparr>visitedURLs = Map.empty, foundLinks = [], maxPages = mp, pagesVisited = 0\<rparr>"

subsection \<open>Callbacks\<close>

text \<open>\<^verbatim>\<open>OnRequest\<close>: under the lock, \<^verbatim>\<open>wc.pagesVisited++\<close>.\<close>

definition onRequest :: "WebCrawler \<Rightarrow> WebCrawler" where
  "onRequest wc = wc\<lparr>pagesVisited := int64_wrap (pagesVisited wc + 1)\<rparr>"

text \<open>
  The check-and-insert of the link handler (\<^verbatim>\<open>if !wc.visitedURLs[normalizedURL] { ... } else
  { ... }\<close>): an absent URL is marked, appended to \<^verbatim>\<open>foundLinks\<close> and visited; the result
  flag says whether \<^verbatim>\<open>e.Request.Visit\<close> is called.
\<close>

definition tryAdmit :: "WebCrawler \<Rightarrow> string \<Rightarrow> WebCrawler \<times> bool" where
  "tryAdmit wc normalizedURL =
     (if \<not> map_get (visitedURLs wc) normalizedURL
      then (wc\<lparr>visitedURLs := (visitedURLs wc)(normalizedURL \<mapsto> True),
                foundLinks := foundLinks wc @ [normalizedURL]\<rparr>, True)
      else (wc, False))"

text \<open>
  The whole critical section of the link handler: the page budget is consulted first
  (\<^verbatim>\<open>if wc.pagesVisited >= wc.maxPages { unlock; return }\<close>), then the check-and-insert.
\<close>

definition onHTML_admit :: "WebCrawler \<Rightarrow> string \<Rightarrow> WebCrawler \<times> bool" where
  "onHTML_admit wc normalizedURL =
     (if pagesVisited wc \<ge> maxPages wc then (wc, False)
      else tryAdmit wc normalizedURL)"

subsection \<open>Runs as sequences of callbacks\<close>

text \<open>
  The collector decides when the callbacks fire. The most general run is any sequence of
  request callbacks and link discoveries, in any order; the second component of the run
  state lists the URLs handed to \<^verbatim>\<open>e.Request.Visit\<close>, in order.
\<close>

datatype event = Request | Discover string

fun step :: "WebCrawler \<times> string list \<Rightarrow> event \<Rightarrow> WebCrawler \<times> string list" where
  "step (wc, visits) Request = (onRequest wc, visits)"
| "step (wc, visits) (Discover u) =
     (case onHTML_admit wc u of
        (wc', admitted) \<Rightarrow> (wc', if admitted then visits @ [u] else visits))"

definition run :: "WebCrawler \<Rightarrow> event list \<Rightarrow> WebCrawler \<times> string list" where
  "run wc evs = foldl step (wc, []) evs"

subsection \<open>The sequential crawl\<close>

text \<open>
  \<^verbatim>\<open>NewWebCrawler\<close> builds its collector without the asynchronous option (the advanced
  scraper passes \<^verbatim>\<open>colly.Async(true)\<close>, the crawler does not; the overview lists the crawler
  as sequential). So \<^verbatim>\<open>e.Request.Visit\<close> runs the request, and with it the request callback,
  before the link handler returns, unless the collector refuses the URL (domain filter,
  depth limit, its own revisit check). That decision is an input of the model, the flag
  \<open>accepted\<close>.
\<close>

definition onHTML_visit :: "WebCrawler \<Rightarrow> string \<Rightarrow> bool \<Rightarrow> WebCrawler \<times> nat" where
  "onHTML_visit wc normalizedURL accepted =
     (case onHTML_admit wc normalizedURL of
        (wc', admitted) \<Rightarrow>
          if admitted \<and> accepted then (onRequest wc', 1) else (wc', 0))"

text \<open>
  \<^verbatim>\<open>Crawl(startURL)\<close> hands the start URL to the collector directly: no budget check and no
  entry in \<^verbatim>\<open>visitedURLs\<close>. The run is then the sequence of link discoveries the fetched
  pages give rise to. The second component counts the requests dispatched.
\<close>

definition Crawl_start :: "WebCrawler \<Rightarrow> bool \<Rightarrow> WebCrawler \<times> nat" where
  "Crawl_start wc accepted = (if accepted then (onRequest wc, 1) else (wc, 0))"

fun Crawl_links :: "WebCrawler \<times> nat \<Rightarrow> (string \<times> bool) list \<Rightarrow> WebCrawler \<times> nat" where
  "Crawl_links s [] = s"
| "Crawl_links (wc, n) ((u, accepted) # ds) =
     (case onHTML_visit wc u accepted of (wc', k) \<Rightarrow> Crawl_links (wc', n + k) ds)"

definition Crawl :: "WebCrawler \<Rightarrow> bool \<Rightarrow> (string \<times> bool) list \<Rightarrow> WebCrawler \<times> nat" where
  "Crawl wc accepted ds = Crawl_links (Crawl_start wc accepted) ds"

subsection \<open>Link normalisation\<close>

text \<open>
  The link handler works on values of the standard library's \<^verbatim>\<open>url.URL\<close>; its exported
  fields are the record below (\<^verbatim>\<open>User\<close> is \<^verbatim>\<open>nil\<close> or a user name with an optional password).
\<close>

record Userinfo =
  username :: string
  password :: string
  passwordSet :: bool

record URL =
  Scheme :: string
  Opaque :: string
  User :: "Userinfo option"
  Host :: string
  Path :: string
  RawPath :: string
  OmitHost :: bool
  ForceQuery :: bool
  RawQuery :: string
  Fragment :: string
  RawFragment :: string

text \<open>
  Three library functions are called by the handler and are parameters of the model:
  the collector's \<^verbatim>\<open>Request.AbsoluteURL\<close> (the request URL is the base; the empty string
  signals that the link could not be resolved), \<^verbatim>\<open>url.Parse\<close> (\<open>None\<close> is the error
  return) and \<^verbatim>\<open>URL.String\<close>.
\<close>

record netlib =
  AbsoluteURL :: "string \<Rightarrow> string \<Rightarrow> string"
  url_Parse :: "string \<Rightarrow> URL option"
  URL_String :: "URL \<Rightarrow> string"

text \<open>\<^verbatim>\<open>strings.HasPrefix(s, p)\<close>.\<close>

definition HasPrefix :: "string \<Rightarrow> string \<Rightarrow> bool" where
  "HasPrefix s p = prefix p s"

text \<open>
  The first half of the link handler, up to \<^verbatim>\<open>normalizedURL := parsedURL.String()\<close>:
  \<open>parsedURL_of\<close> is the parsed URL after \<^verbatim>\<open>parsedURL.Fragment = ""\<close>, and \<open>None\<close> stands
  for each early \<^verbatim>\<open>return\<close>.
\<close>

definition parsedURL_of :: "netlib \<Rightarrow> string \<Rightarrow> string \<Rightarrow> URL option" where
  "parsedURL_of L base link =
     (if link = [] \<or> HasPrefix link ''#'' \<or> HasPrefix link ''javascript:'' then None
      else let absoluteURL = AbsoluteURL L base link in
        if absoluteURL = [] then None
        else case url_Parse L absoluteURL of
               None \<Rightarrow> None
             | Some parsedURL \<Rightarrow> Some (parsedURL\<lparr>Fragment := []\<rparr>))"

definition normalizeLink :: "netlib \<Rightarrow> string \<Rightarrow> string \<Rightarrow> string option" where
  "normalizeLink L base link = map_option (URL_String L) (parsedURL_of L base link)"

text \<open>
  The whole link handler: normalise, then the critical section. The second component is
  the URL handed to \<^verbatim>\<open>e.Request.Visit\<close>, if any.
\<close>

definition onHTML :: "netlib \<Rightarrow> WebCrawler \<Rightarrow> string \<Rightarrow> string \<Rightarrow> WebCrawler \<times> string option" where
  "onHTML L wc base link =
     (case normalizeLink L base link of
        None \<Rightarrow> (wc, None)
      | Some normalizedURL \<Rightarrow>
          (case onHTML_admit wc normalizedURL of
             (wc', admitted) \<Rightarrow> (wc', if admitted then Some normalizedURL else None)))"

text \<open>
  The rejection rule in the words of the specification: a link is rejected when it is
  empty, starts with \<^verbatim>\<open>#\<close>, uses a scheme other than http or https, or fails to parse.
  The scheme of a link is what precedes its first colon, when that is a letter followed
  by letters, digits, \<^verbatim>\<open>+\<close>, \<^verbatim>\<open>-\<close> or \<^verbatim>\<open>.\<close>; schemes compare without regard to case.
\<close>

definition is_letter :: "char \<Rightarrow> bool" where
  "is_letter c = (let n = (of_char c :: nat) in (65 \<le> n \<and> n \<le> 90) \<or> (97 \<le> n \<and> n \<le> 122))"

definition is_scheme_char :: "char \<Rightarrow> bool" where
  "is_scheme_char c =
     (let n = (of_char c :: nat) in
        is_letter c \<or> (48 \<le> n \<and> n \<le> 57) \<or> c = CHR ''+'' \<or> c = CHR ''-'' \<or> c = CHR ''.'')"

definition to_lower :: "char \<Rightarrow> char" where
  "to_lower c = (let n = (of_char c :: nat) in if 65 \<le> n \<and> n \<le> 90 then char_of (n + 32) else c)"

definition link_scheme :: "string \<Rightarrow> string option" where
  "link_scheme link =
     (let s = takeWhile (\<lambda>c. c \<noteq> CHR '':'') link in
        if length s < length link \<and> s \<noteq> [] \<and> is_letter (hd s) \<and> list_all is_scheme_char s
        then Some (map to_lower s) else None)"

definition spec_rejects :: "netlib \<Rightarrow> string \<Rightarrow> string \<Rightarrow> bool" where
  "spec_rejects L base link =
     (link = [] \<or> HasPrefix link ''#''
      \<or> (case link_scheme link of None \<Rightarrow> False | Some s \<Rightarrow> s \<noteq> ''http'' \<and> s \<noteq> ''https'')
      \<or> AbsoluteURL L base link = []
      \<or> url_Parse L (AbsoluteURL L base link) = None)"

text \<open>
  A sample of the library's results, for evaluating the handler on concrete links. With
  the page \<^verbatim>\<open>http://x/\<close> as base: an absolute \<^verbatim>\<open>mailto:\<close> link resolves to itself and
  parses into an opaque URL; a rooted path resolves against the host. The sample resolver
  keeps a fragment in place (as \<^verbatim>\<open>url.URL.Parse\<close> on the base does), so that the handler's
  own clearing of the fragment is what removes it. Any other input is reported as
  unresolvable.
\<close>

definition sample_URL :: URL where
  "sample_URL = \<lparr>Scheme = ''http'', Opaque = [], User = None, Host = ''x'', Path = ''/page1'',
     RawPath = [], OmitHost = False, ForceQuery = False, RawQuery = [], Fragment = [],
     RawFragment = []\<rparr>"

definition sample_String :: "URL \<Rightarrow> string" where
  "sample_String u =
     Scheme u @ '':'' @
     (if Opaque u \<noteq> [] then Opaque u else ''//'' @ Host u @ Path u) @
     (if RawQuery u \<noteq> [] then ''?'' @ RawQuery u else []) @
     (if Fragment u \<noteq> [] then ''#'' @ Fragment u else [])"

definition sample_lib :: netlib where
  "sample_lib = \<lparr>
     AbsoluteURL = (\<lambda>base link.
       if base = ''http://x/'' \<and> link = ''mailto:a@b'' then ''mailto:a@b''
       else if base = ''http://x/'' \<and> link = ''/page1#a'' then ''http://x/page1#a''
       else if base = ''http://x/'' \<and> link = ''/page1#b'' then ''http://x/page1#b''
       else []),
     url_Parse = (\<lambda>s.
       if s = ''mailto:a@b'' then Some (sample_URL\<lparr>Scheme := ''mailto'', Opaque := ''a@b'',
                                                  Host := [], Path := []\<rparr>)
       else if s = ''http://x/page1#a'' then Some (sample_URL\<lparr>Fragment := ''a''\<rparr>)
       else if s = ''http://x/page1#b'' then Some (sample_URL\<lparr>Fragment := ''b''\<rparr>)
       else None),
     URL_String = sample_String\<rparr>"

subsection \<open>Tasks and their depth\<close>

text \<open>
  The depth limit that \<^verbatim>\<open>NewWebCrawler\<close> passes to the collector, \<^verbatim>\<open>colly.MaxDepth(3)\<close>.
\<close>

definition MaxDepth :: nat where
  "MaxDepth = 3"

text \<open>
  Modelled from the spec: the dispatcher of tasks. The depth of a request and its
  comparison with the limit are kept by the collector, whose code is not part of the
  sources; the crawler only passes the limit and calls \<^verbatim>\<open>e.Request.Visit\<close> for every link
  its handler admits. In the words of the specification: the start URL is a task at depth
  0; each newly admitted link found on a page of depth \<open>d\<close> becomes a task at depth
  \<open>d + 1\<close>, enqueued only if \<open>d + 1 \<le> maxDepth\<close>. The collector may refuse a URL for other
  reasons (its domain filter), the predicate \<open>permitted\<close>. A dispatched task runs the
  request callback and then the link handler on every link of the fetched page, \<open>page u\<close>;
  the crawl is sequential, so a visit is completed inside the handler that asked for it.
  The second component of the state lists the dispatched tasks with their depths.
\<close>

function dispatch_links ::
  "netlib \<Rightarrow> (string \<Rightarrow> string list) \<Rightarrow> (string \<Rightarrow> bool) \<Rightarrow> nat \<Rightarrow> nat \<Rightarrow> string \<Rightarrow> string list
     \<Rightarrow> WebCrawler \<times> (string \<times> nat) list \<Rightarrow> WebCrawler \<times> (string \<times> nat) list" where
  "dispatch_links L page permitted maxDepth d base [] st = st"
| "dispatch_links L page permitted maxDepth d base (link # links) st =
     (case onHTML L (fst st) base link of
        (wc', None) \<Rightarrow> dispatch_links L page permitted maxDepth d base links (wc', snd st)
      | (wc', Some u) \<Rightarrow>
          if permitted u \<and> d + 1 \<le> maxDepth
          then dispatch_links L page permitted maxDepth d base links
                 (dispatch_links L page permitted maxDepth (d + 1) u (page u)
                    (onRequest wc', snd st @ [(u, d + 1)]))
          else dispatch_links L page permitted maxDepth d base links (wc', snd st))"
  by pat_completeness auto
termination
  by (relation "inv_image (less_than <*lex*> less_than)
        (\<lambda>(L, page, permitted, maxDepth, d, base, links, st). (maxDepth - d, length links))")
     auto

declare dispatch_links.simps [simp del]

definition Crawl_dispatch ::
  "netlib \<Rightarrow> (string \<Rightarrow> string list) \<Rightarrow> (string \<Rightarrow> bool) \<Rightarrow> WebCrawler \<Rightarrow> string
     \<Rightarrow> WebCrawler \<times> (string \<times> nat) list" where
  "Crawl_dispatch L page permitted wc startURL =
     (if permitted startURL
      then dispatch_links L page permitted MaxDepth 0 startURL (page startURL)
             (onRequest wc, [(startURL, 0)])
      else (wc, []))"

text \<open>
  A small web for evaluating the crawl: five pages in a chain, \<^verbatim>\<open>a\<close> linking to \<^verbatim>\<open>b\<close>, and so
  on up to \<^verbatim>\<open>f\<close>, with library functions that resolve every link to itself.
\<close>

definition chain_lib :: netlib where
  "chain_lib = \<lparr>
     AbsoluteURL = (\<lambda>base link. link),
     url_Parse = (\<lambda>s. Some (sample_URL\<lparr>Path := s\<rparr>)),
     URL_String = Path\<rparr>"

definition chain_page :: "string \<Rightarrow> string list" where
  "chain_page u =
     (if u = ''a'' then [''b''] else if u = ''b'' then [''c''] else if u = ''c'' then [''d'']
      else if u = ''d'' then [''e''] else if u = ''e'' then [''f''] else [])"


section \<open>The advanced scraper (advanced_scraper.go)\<close>

subsection \<open>Retry on error\<close>

text \<open>
  The error callback of the listing collector: for status 429 or 503 it sleeps five
  seconds in the callback (\<^verbatim>\<open>time.Sleep(5 * time.Second)\<close>) and calls \<^verbatim>\<open>r.Request.Retry()\<close>;
  for any other status it only logs. The result is the time slept, in seconds, and
  whether the request is submitted again.
\<close>

definition onError :: "int \<Rightarrow> nat \<times> bool" where
  "onError StatusCode = (if StatusCode = 429 \<or> StatusCode = 503 then (5, True) else (0, False))"

text \<open>
  One task under this callback. \<open>server k\<close> is the status of the response to the
  \<open>k\<close>-th fetch of the URL. The callback keeps no attempt counter and the request
  carries none, so the only way out of the loop is a response that is not retried. The
  result is the number of fetches made and the seconds slept; \<open>None\<close> is a task that
  never finishes (\<^verbatim>\<open>Scrape\<close> then waits in \<^verbatim>\<open>s.collector.Wait()\<close> for ever).
\<close>

partial_function (option) fetch_task :: "(nat \<Rightarrow> int) \<Rightarrow> nat \<Rightarrow> nat \<Rightarrow> (nat \<times> nat) option" where
  "fetch_task server attempt slept =
     (case onError (server attempt) of
        (d, retry) \<Rightarrow>
          if retry then fetch_task server (Suc attempt) (slept + d)
          else Some (Suc attempt, slept + d))"

subsection \<open>Starting a run\<close>

text \<open>
  \<^verbatim>\<open>Scrape(startURL)\<close>: the start URL is parsed, and only a parse error stops the run
  before the collector is asked to visit it. \<open>visit_fails\<close> is the error result of
  \<^verbatim>\<open>s.collector.Visit\<close>; the second component lists the URLs handed to the collector.
\<close>

datatype scrape_error = InvalidURL | VisitFailed

definition Scrape :: "netlib \<Rightarrow> (string \<Rightarrow> bool) \<Rightarrow> string \<Rightarrow> scrape_error option \<times> string list" where
  "Scrape L visit_fails startURL =
     (case url_Parse L startURL of
        None \<Rightarrow> (Some InvalidURL, [])
      | Some _ \<Rightarrow>
          if visit_fails startURL then (Some VisitFailed, [startURL])
          else (None, [startURL]))"

subsection \<open>The returned copy of the found links\<close>

text \<open>
  \<^verbatim>\<open>GetFoundLinks\<close> is about sharing, so here slices are modelled as Go has them: a slice
  is a window (offset, length, capacity) on a backing array, and the store holds the
  backing arrays, addressed by their index. \<^verbatim>\<open>make\<close> allocates a new array at the end of
  the store.
\<close>

type_synonym store = "string list list"

record slice =
  array :: nat
  off :: nat
  len :: nat
  cap :: nat

definition valid_slice :: "store \<Rightarrow> slice \<Rightarrow> bool" where
  "valid_slice h s = (array s < length h \<and> off s + len s \<le> length (h ! array s))"

text \<open>The elements seen through a slice.\<close>

definition elems :: "store \<Rightarrow> slice \<Rightarrow> string list" where
  "elems h s = take (len s) (drop (off s) (h ! array s))"

text \<open>\<^verbatim>\<open>make([]string, n)\<close>: a fresh array of \<open>n\<close> empty strings.\<close>

definition make_slice :: "store \<Rightarrow> nat \<Rightarrow> store \<times> slice" where
  "make_slice h n = (h @ [replicate n []], \<lparr>array = length h, off = 0, len = n, cap = n\<rparr>)"

text \<open>
  \<^verbatim>\<open>copy(dst, src)\<close>: the first \<open>min (len dst) (len src)\<close> elements of \<open>src\<close> are written
  over those of \<open>dst\<close>, as if read before any is written.
\<close>

definition copy_slice :: "store \<Rightarrow> slice \<Rightarrow> slice \<Rightarrow> store" where
  "copy_slice h dst src =
     (let n = min (len dst) (len src);
          vals = take n (elems h src);
          a = h ! array dst
      in h[array dst := take (off dst) a @ vals @ drop (off dst + n) a])"

text \<open>\<^verbatim>\<open>s[i] = v\<close>; an index outside the length panics (\<open>None\<close>).\<close>

definition set_elem :: "store \<Rightarrow> slice \<Rightarrow> nat \<Rightarrow> string \<Rightarrow> store option" where
  "set_elem h s i v =
     (if i < len s then Some (h[array s := (h ! array s)[off s + i := v]]) else None)"

text \<open>
  \<^verbatim>\<open>GetFoundLinks\<close>, given the store and the slice header held in \<^verbatim>\<open>wc.foundLinks\<close>:
  \<^verbatim>\<open>links := make([]string, len(wc.foundLinks)); copy(links, wc.foundLinks); return links\<close>.
\<close>

definition GetFoundLinks :: "store \<Rightarrow> slice \<Rightarrow> store \<times> slice" where
  "GetFoundLinks h fl =
     (case make_slice h (len fl) of (h1, links) \<Rightarrow> (copy_slice h1 links fl, links))"

section \<open>The basic scraper (main.go)\<close>

subsection \<open>CSV export\<close>

text \<open>
  The struct \<^verbatim>\<open>Product\<close>; the scrape time is of an abstract type, formatted by the
  parameter \<open>rfc3339\<close> (\<^verbatim>\<open>ScrapedAt.Format(time.RFC3339)\<close>).
\<close>

record 't Product =
  URL :: string
  Image :: string
  Name :: string
  Price :: string
  ScrapedAt :: 't

datatype csv_error = CreateFailed | HeaderWriteFailed | RowWriteFailed

definition header :: "string list" where
  "header = [''Name'', ''Price'', ''URL'', ''Image'', ''Scraped At'']"

definition row :: "('t \<Rightarrow> string) \<Rightarrow> 't Product \<Rightarrow> string list" where
  "row rfc3339 product =
     [Name product, Price product, URL product, Image product, rfc3339 (ScrapedAt product)]"

text \<open>
  The records go through a \<^verbatim>\<open>csv.Writer\<close>, which buffers: \<^verbatim>\<open>writer.Write\<close> puts a record
  into the buffer and fails only when the buffer, on filling up, cannot be emptied into
  the file; from then on the writer stays in error. What is still in the buffer reaches
  the file in the deferred \<^verbatim>\<open>writer.Flush()\<close>, which runs before the deferred
  \<^verbatim>\<open>file.Close()\<close> and does nothing when the writer is in error. The function never reads
  the outcome of the flush (\<^verbatim>\<open>writer.Error()\<close>), nor that of the close.

  So the file, once the function has returned, is one of three things: not created; holding
  all the records the writer accepted, when the flush has delivered them; or incomplete,
  holding only what the buffer had let through before the failure, possibly nothing.
\<close>

datatype file_content = NoFile | Incomplete | Complete "string list list"

text \<open>
  The loop over the products. \<open>write_ok k\<close> says whether the \<open>k\<close>-th call of
  \<^verbatim>\<open>writer.Write\<close> succeeds (the header is call 0); \<open>written\<close> are the records accepted
  by the writer so far. The first failing call ends the export with an error.
\<close>

fun write_rows ::
  "(nat \<Rightarrow> bool) \<Rightarrow> ('t \<Rightarrow> string) \<Rightarrow> nat \<Rightarrow> 't Product list \<Rightarrow> string list list
     \<Rightarrow> csv_error option \<times> string list list" where
  "write_rows write_ok rfc3339 k [] written = (None, written)"
| "write_rows write_ok rfc3339 k (product # products) written =
     (if write_ok k
      then write_rows write_ok rfc3339 (Suc k) products (written @ [row rfc3339 product])
      else (Some RowWriteFailed, written))"

text \<open>
  The deferred \<^verbatim>\<open>writer.Flush()\<close>: \<open>in_error\<close> says whether a write has failed, \<open>flush_ok\<close>
  whether emptying the buffer into the file succeeds.
\<close>

definition Flush :: "bool \<Rightarrow> bool \<Rightarrow> string list list \<Rightarrow> file_content" where
  "Flush in_error flush_ok written =
     (if \<not> in_error \<and> flush_ok then Complete written else Incomplete)"

text \<open>
  \<^verbatim>\<open>exportToCSV(products, filename)\<close>. \<open>create_ok\<close> is the outcome of \<^verbatim>\<open>os.Create\<close>. The
  result is the error returned and the file as the deferred calls leave it. The error
  returned is that of \<^verbatim>\<open>os.Create\<close> or of a \<^verbatim>\<open>writer.Write\<close>; otherwise \<^verbatim>\<open>nil\<close>, whatever
  the flush does.
\<close>

definition exportToCSV ::
  "bool \<Rightarrow> (nat \<Rightarrow> bool) \<Rightarrow> bool \<Rightarrow> ('t \<Rightarrow> string) \<Rightarrow> 't Product list
     \<Rightarrow> csv_error option \<times> file_content" where
  "exportToCSV create_ok write_ok flush_ok rfc3339 products =
     (if \<not> create_ok then (Some CreateFailed, NoFile)
      else if \<not> write_ok 0 then (Some HeaderWriteFailed, Flush True flush_ok [])
      else case write_rows write_ok rfc3339 1 products [header] of
             (err, written) \<Rightarrow> (err, Flush (err \<noteq> None) flush_ok written))"

subsection \<open>Price clean-up\<close>

text \<open>
  A Go string is a sequence of bytes; \<open>byte\<close> reads one as a number. The functions of
  the packages \<^verbatim>\<open>unicode/utf8\<close>, \<^verbatim>\<open>unicode\<close> and \<^verbatim>\<open>strings\<close> that \<^verbatim>\<open>cleanPrice\<close> relies on
  follow, as the standard library has them.
\<close>

definition byte :: "char \<Rightarrow> nat" where
  "byte c = of_char c"

definition RuneError :: nat where
  "RuneError = 0xFFFD"

text \<open>The table \<^verbatim>\<open>asciiSpace\<close> of package \<^verbatim>\<open>strings\<close>: tab, newline, VT, FF, CR, space.\<close>

definition asciiSpace :: "char \<Rightarrow> bool" where
  "asciiSpace c =
     (c = CHR 0x09 \<or> c = CHR 0x0A \<or> c = CHR 0x0B \<or> c = CHR 0x0C \<or> c = CHR 0x0D \<or> c = CHR 0x20)"

text \<open>\<^verbatim>\<open>unicode.IsSpace\<close>: the Latin-1 spaces, and the property White_Space beyond.\<close>

definition IsSpace :: "nat \<Rightarrow> bool" where
  "IsSpace r =
     (if r \<le> 0xFF
      then r = 0x09 \<or> r = 0x0A \<or> r = 0x0B \<or> r = 0x0C \<or> r = 0x0D \<or> r = 0x20
           \<or> r = 0x85 \<or> r = 0xA0
      else r = 0x1680 \<or> (0x2000 \<le> r \<and> r \<le> 0x200A) \<or> r = 0x2028 \<or> r = 0x2029
           \<or> r = 0x202F \<or> r = 0x205F \<or> r = 0x3000)"

text \<open>
  \<^verbatim>\<open>utf8.DecodeRuneInString\<close>. For a lead byte, \<open>first_info\<close> gives the length of the
  sequence and the range accepted for the second byte; \<open>None\<close> marks a byte that cannot
  start a sequence. An invalid or short sequence decodes to \<open>RuneError\<close> of width 1.
\<close>

definition first_info :: "nat \<Rightarrow> (nat \<times> nat \<times> nat) option" where
  "first_info b =
     (if 0xC2 \<le> b \<and> b \<le> 0xDF then Some (2, 0x80, 0xBF)
      else if b = 0xE0 then Some (3, 0xA0, 0xBF)
      else if (0xE1 \<le> b \<and> b \<le> 0xEC) \<or> b = 0xEE \<or> b = 0xEF then Some (3, 0x80, 0xBF)
      else if b = 0xED then Some (3, 0x80, 0x9F)
      else if b = 0xF0 then Some (4, 0x90, 0xBF)
      else if 0xF1 \<le> b \<and> b \<le> 0xF3 then Some (4, 0x80, 0xBF)
      else if b = 0xF4 then Some (4, 0x80, 0x8F)
      else None)"

definition decode_tail :: "string \<Rightarrow> nat \<Rightarrow> nat \<times> nat \<times> nat \<Rightarrow> nat \<times> nat" where
  "decode_tail s s0 x =
     (case x of (sz, lo, hi) \<Rightarrow>
        if length s < sz then (RuneError, 1)
        else let s1 = byte (s ! 1) in
          if s1 < lo \<or> hi < s1 then (RuneError, 1)
          else if sz \<le> 2 then ((s0 mod 32) * 64 + s1 mod 64, 2)
          else let s2 = byte (s ! 2) in
            if s2 < 0x80 \<or> 0xBF < s2 then (RuneError, 1)
            else if sz \<le> 3 then ((s0 mod 16) * 4096 + (s1 mod 64) * 64 + s2 mod 64, 3)
            else let s3 = byte (s ! 3) in
              if s3 < 0x80 \<or> 0xBF < s3 then (RuneError, 1)
              else ((s0 mod 8) * 262144 + (s1 mod 64) * 4096 + (s2 mod 64) * 64
                      + s3 mod 64, 4))"

definition DecodeRuneInString :: "string \<Rightarrow> nat \<times> nat" where
  "DecodeRuneInString s =
     (if s = [] then (RuneError, 0)
      else let s0 = byte (s ! 0) in
        if s0 < 0x80 then (s0, 1)
        else (case first_info s0 of
                None \<Rightarrow> (RuneError, 1)
              | Some x \<Rightarrow> decode_tail s s0 x))"

text \<open>
  \<^verbatim>\<open>utf8.DecodeLastRuneInString\<close>: from the last byte, step back over at most three
  bytes to the nearest byte that can start a sequence (\<open>find_start\<close>, whose last argument
  is one more than the index looked at), decode from there, and accept the result only if
  it ends exactly at the end of the string.
\<close>

definition RuneStart :: "char \<Rightarrow> bool" where
  "RuneStart c = (byte c < 0x80 \<or> 0xC0 \<le> byte c)"

fun find_start :: "string \<Rightarrow> nat \<Rightarrow> nat \<Rightarrow> nat" where
  "find_start s lim 0 = lim"
| "find_start s lim (Suc start) =
     (if Suc start \<le> lim then lim
      else if RuneStart (s ! start) then start
      else find_start s lim start)"

definition DecodeLastRuneInString :: "string \<Rightarrow> nat \<times> nat" where
  "DecodeLastRuneInString s =
     (let end = length s in
      if end = 0 then (RuneError, 0)
      else let r = byte (s ! (end - 1)) in
        if r < 0x80 then (r, 1)
        else let lim = end - 4;
                 start = find_start s lim (end - 1);
                 (r, size) = DecodeRuneInString (drop start s)
             in if start + size \<noteq> end then (RuneError, 1) else (r, size))"

lemma first_info_Some:
  "first_info b = Some (sz, lo, hi) \<Longrightarrow>
     (sz = 2 \<or> sz = 3 \<or> sz = 4) \<and> 0x80 \<le> lo \<and> hi \<le> 0xBF \<and> 0xC2 \<le> b \<and> b \<le> 0xF4"
  unfolding first_info_def by (auto split: if_splits)

lemma decode_tail_size:
  assumes "sz = 2 \<or> sz = 3 \<or> sz = 4"
  shows "snd (decode_tail s s0 (sz, lo, hi)) = 1
         \<or> (snd (decode_tail s s0 (sz, lo, hi)) = sz \<and> sz \<le> length s)"
proof -
  consider "sz = 2" | "sz = 3" | "sz = 4" using assms by blast
  then show ?thesis
  proof cases
    case 1
    then show ?thesis by (simp add: decode_tail_def Let_def)
  next
    case 2
    then show ?thesis by (simp add: decode_tail_def Let_def)
  next
    case 3
    then show ?thesis by (simp add: decode_tail_def Let_def)
  qed
qed

lemma DecodeRuneInString_size:
  "s \<noteq> [] \<Longrightarrow> 1 \<le> snd (DecodeRuneInString s) \<and> snd (DecodeRuneInString s) \<le> length s"
proof -
  assume ne: "s \<noteq> []"
  then have l: "1 \<le> length s" by (cases s) simp_all
  show ?thesis
  proof (cases "byte (s ! 0) < 0x80")
    case True
    with ne l show ?thesis by (simp add: DecodeRuneInString_def)
  next
    case False
    show ?thesis
    proof (cases "first_info (byte (s ! 0))")
      case None
      with ne l False show ?thesis by (simp add: DecodeRuneInString_def)
    next
      case (Some x)
      obtain sz lo hi where x: "x = (sz, lo, hi)" by (cases x)
      from first_info_Some [of "byte (s ! 0)" sz lo hi] Some x
      have sz: "sz = 2 \<or> sz = 3 \<or> sz = 4" by simp
      have d: "DecodeRuneInString s = decode_tail s (byte (s ! 0)) (sz, lo, hi)"
        using ne False Some x by (simp add: DecodeRuneInString_def)
      from decode_tail_size [OF sz, of s "byte (s ! 0)" lo hi] sz l d show ?thesis by auto
    qed
  qed
qed

lemma find_start_le: "find_start s lim k \<le> max lim k"
  by (induction k) auto

lemma DecodeLastRuneInString_size:
  "s \<noteq> [] \<Longrightarrow>
     1 \<le> snd (DecodeLastRuneInString s) \<and> snd (DecodeLastRuneInString s) \<le> length s"
proof -
  assume ne: "s \<noteq> []"
  let ?st = "find_start s (length s - 4) (length s - 1)"
  have "?st \<le> max (length s - 4) (length s - 1)" by (rule find_start_le)
  with ne have lt: "?st < length s" by (cases s) auto
  then have "drop ?st s \<noteq> []" by simp
  from DecodeRuneInString_size [OF this]
  have "1 \<le> snd (DecodeRuneInString (drop ?st s))" by simp
  with ne lt show ?thesis
    by (auto simp: DecodeLastRuneInString_def Let_def split: prod.splits)
qed

text \<open>
  \<^verbatim>\<open>indexFunc\<close> (the loop \<^verbatim>\<open>for i, r := range s\<close>) and \<^verbatim>\<open>lastIndexFunc\<close> of package
  \<^verbatim>\<open>strings\<close>; \<open>None\<close> is the result \<^verbatim>\<open>-1\<close>.
\<close>

function indexFunc_from :: "(nat \<Rightarrow> bool) \<Rightarrow> bool \<Rightarrow> nat \<Rightarrow> string \<Rightarrow> nat option" where
  "indexFunc_from f truth i s =
     (if s = [] then None
      else if f (fst (DecodeRuneInString s)) = truth then Some i
      else indexFunc_from f truth (i + snd (DecodeRuneInString s))
             (drop (snd (DecodeRuneInString s)) s))"
  by pat_completeness auto
termination
proof (relation "measure (\<lambda>(f, truth, i, s). length s)")
  show "wf (measure (\<lambda>(f, truth, i, s). length s))" by simp
next
  fix f :: "nat \<Rightarrow> bool" and truth :: bool and i :: nat and s :: string
  assume "s \<noteq> []"
  then have "1 \<le> snd (DecodeRuneInString s)" using DecodeRuneInString_size [of s] by simp
  with \<open>s \<noteq> []\<close>
  show "((f, truth, i + snd (DecodeRuneInString s), drop (snd (DecodeRuneInString s)) s),
         (f, truth, i, s)) \<in> measure (\<lambda>(f, truth, i, s). length s)"
    by simp
qed

declare indexFunc_from.simps [simp del]

definition indexFunc :: "string \<Rightarrow> (nat \<Rightarrow> bool) \<Rightarrow> bool \<Rightarrow> nat option" where
  "indexFunc s f truth = indexFunc_from f truth 0 s"

function lastIndexFunc_from :: "string \<Rightarrow> (nat \<Rightarrow> bool) \<Rightarrow> bool \<Rightarrow> nat \<Rightarrow> nat option" where
  "lastIndexFunc_from s f truth i =
     (if i = 0 \<or> length s < i then None
      else if f (fst (DecodeLastRuneInString (take i s))) = truth
        then Some (i - snd (DecodeLastRuneInString (take i s)))
      else lastIndexFunc_from s f truth (i - snd (DecodeLastRuneInString (take i s))))"
  by pat_completeness auto
termination
proof (relation "measure (\<lambda>(s, f, truth, i). i)")
  show "wf (measure (\<lambda>(s, f, truth, i). i))" by simp
next
  fix s :: string and f :: "nat \<Rightarrow> bool" and truth :: bool and i :: nat
  assume a: "\<not> (i = 0 \<or> length s < i)"
  then have "take i s \<noteq> []" by auto
  from DecodeLastRuneInString_size [OF this]
  have "1 \<le> snd (DecodeLastRuneInString (take i s))" by simp
  with a show "((s, f, truth, i - snd (DecodeLastRuneInString (take i s))), (s, f, truth, i))
      \<in> measure (\<lambda>(s, f, truth, i). i)"
    by simp
qed

declare lastIndexFunc_from.simps [simp del]

definition lastIndexFunc :: "string \<Rightarrow> (nat \<Rightarrow> bool) \<Rightarrow> bool \<Rightarrow> nat option" where
  "lastIndexFunc s f truth = lastIndexFunc_from s f truth (length s)"

text \<open>\<^verbatim>\<open>strings.TrimLeftFunc\<close>, \<^verbatim>\<open>TrimRightFunc\<close>, \<^verbatim>\<open>TrimFunc\<close>.\<close>

definition TrimLeftFunc :: "string \<Rightarrow> (nat \<Rightarrow> bool) \<Rightarrow> string" where
  "TrimLeftFunc s f = (case indexFunc s f False of None \<Rightarrow> [] | Some i \<Rightarrow> drop i s)"

definition TrimRightFunc :: "string \<Rightarrow> (nat \<Rightarrow> bool) \<Rightarrow> string" where
  "TrimRightFunc s f =
     (case lastIndexFunc s f False of
        None \<Rightarrow> []
      | Some i \<Rightarrow>
          if 0x80 \<le> byte (s ! i) then take (i + snd (DecodeRuneInString (drop i s))) s
          else take (i + 1) s)"

definition TrimFunc :: "string \<Rightarrow> (nat \<Rightarrow> bool) \<Rightarrow> string" where
  "TrimFunc s f = TrimRightFunc (TrimLeftFunc s f) f"

text \<open>
  \<^verbatim>\<open>strings.TrimSpace\<close>: leading ASCII spaces are skipped; at a byte that is not ASCII the
  rest is trimmed rune by rune on both sides; otherwise trailing ASCII spaces are skipped,
  and at a byte that is not ASCII the right side is trimmed rune by rune.
\<close>

definition TrimSpace :: "string \<Rightarrow> string" where
  "TrimSpace s =
     (let s1 = dropWhile asciiSpace s in
      if s1 \<noteq> [] \<and> 0x80 \<le> byte (hd s1) then TrimFunc s1 IsSpace
      else let s2 = rev (dropWhile asciiSpace (rev s1)) in
        if s2 \<noteq> [] \<and> 0x80 \<le> byte (last s2) then TrimRightFunc s2 IsSpace
        else s2)"

text \<open>
  \<^verbatim>\<open>strings.ReplaceAll\<close>: the occurrences of \<open>old\<close> are replaced from left to right,
  without overlap; an empty \<open>old\<close> matches before every rune and at the end.
\<close>

function insert_runes :: "string \<Rightarrow> string \<Rightarrow> string" where
  "insert_runes new s =
     (if s = [] then []
      else take (snd (DecodeRuneInString s)) s @ new
             @ insert_runes new (drop (snd (DecodeRuneInString s)) s))"
  by pat_completeness auto
termination
proof (relation "measure (\<lambda>(new, s). length s)")
  show "wf (measure (\<lambda>(new, s). length s))" by simp
next
  fix new s :: string
  assume "s \<noteq> []"
  then have "1 \<le> snd (DecodeRuneInString s)" using DecodeRuneInString_size [of s] by simp
  with \<open>s \<noteq> []\<close>
  show "((new, drop (snd (DecodeRuneInString s)) s), (new, s)) \<in> measure (\<lambda>(new, s). length s)"
    by simp
qed

declare insert_runes.simps [simp del]

function replace_from :: "string \<Rightarrow> string \<Rightarrow> string \<Rightarrow> string" where
  "replace_from s old new =
     (if s = [] \<or> old = [] then s
      else if prefix old s then new @ replace_from (drop (length old) s) old new
      else hd s # replace_from (tl s) old new)"
  by pat_completeness auto
termination
  by (relation "measure (\<lambda>(s, old, new). length s)") (auto simp: prefix_def)

declare replace_from.simps [simp del]

definition ReplaceAll :: "string \<Rightarrow> string \<Rightarrow> string \<Rightarrow> string" where
  "ReplaceAll s old new =
     (if old = [] then new @ insert_runes new s else replace_from s old new)"

text \<open>\<^verbatim>\<open>strings.Contains\<close>.\<close>

fun Contains :: "string \<Rightarrow> string \<Rightarrow> bool" where
  "Contains [] substr = (substr = [])"
| "Contains (c # s) substr = (prefix substr (c # s) \<or> Contains s substr)"

lemma replace_from_Nil: "replace_from [] old new = []"
  by (subst replace_from.simps) simp

lemma replace_from_match:
  "old \<noteq> [] \<Longrightarrow> prefix old (c # s) \<Longrightarrow>
     replace_from (c # s) old new = new @ replace_from (drop (length old) (c # s)) old new"
  by (subst replace_from.simps) simp

lemma replace_from_skip:
  "old \<noteq> [] \<Longrightarrow> \<not> prefix old (c # s) \<Longrightarrow>
     replace_from (c # s) old new = c # replace_from s old new"
  by (subst replace_from.simps) simp

lemma replace_from_length:
  "length new \<le> length old \<Longrightarrow> length (replace_from s old new) \<le> length s"
proof (induction s rule: length_induct)
  case (1 s)
  show ?case
  proof (cases s)
    case Nil
    then show ?thesis by (simp add: replace_from_Nil)
  next
    case (Cons c t)
    show ?thesis
    proof (cases "old \<noteq> [] \<and> prefix old s")
      case True
      then have lo: "0 < length old" "length old \<le> length s"
        by (auto intro: prefix_length_le)
      then have "length (drop (length old) s) < length s" using Cons by simp
      with 1 have "length (replace_from (drop (length old) s) old new) \<le> length s - length old"
        by fastforce
      with True Cons lo 1(2) show ?thesis by (simp add: replace_from_match)
    next
      case False
      show ?thesis
      proof (cases "old = []")
        case True
        then show ?thesis by (subst replace_from.simps) simp
      next
        case ne: False
        with False Cons have np: "\<not> prefix old (c # t)" by simp
        have "length (replace_from t old new) \<le> length t" using 1 Cons by simp
        with ne np Cons show ?thesis by (simp add: replace_from_skip)
      qed
    qed
  qed
qed

lemma replace_from_shrinks:
  "length new < length old \<Longrightarrow> Contains s old \<Longrightarrow> length (replace_from s old new) < length s"
proof (induction s)
  case Nil
  then show ?case by simp
next
  case (Cons c s)
  from Cons.prems(1) have ne: "old \<noteq> []" by auto
  show ?case
  proof (cases "prefix old (c # s)")
    case True
    then have "length old \<le> length (c # s)" by (rule prefix_length_le)
    moreover have "length (replace_from (drop (length old) (c # s)) old new)
        \<le> length (drop (length old) (c # s))"
      using Cons.prems(1) by (intro replace_from_length) simp
    ultimately show ?thesis
      using True ne Cons.prems(1) by (simp add: replace_from_match)
  next
    case False
    with Cons.prems have "Contains s old" by simp
    from Cons.IH [OF Cons.prems(1) this] False ne show ?thesis
      by (simp add: replace_from_skip)
  qed
qed

text \<open>
  \<^verbatim>\<open>cleanPrice\<close>: trim, turn newlines into spaces, delete tabs, and collapse runs of
  spaces by replacing two spaces with one for as long as two spaces occur.
\<close>

function collapse_spaces :: "string \<Rightarrow> string" where
  "collapse_spaces price =
     (if Contains price [CHR 0x20, CHR 0x20]
      then collapse_spaces (ReplaceAll price [CHR 0x20, CHR 0x20] [CHR 0x20])
      else price)"
  by pat_completeness auto
termination
  by (relation "measure length") (auto simp: ReplaceAll_def replace_from_shrinks)

declare collapse_spaces.simps [simp del]

definition cleanPrice :: "string \<Rightarrow> string" where
  "cleanPrice price =
     collapse_spaces
       (ReplaceAll (ReplaceAll (TrimSpace price) [CHR 0x0A] [CHR 0x20]) [CHR 0x09] [])"

section \<open>Properties of the crawler\<close>

lemma map_get_upd: "map_get (m(k \<mapsto> True)) k' = (k' = k \<or> map_get m k')"
  by (simp add: map_get_def)

lemma tryAdmit_visited:
  "map_get (visitedURLs (fst (tryAdmit wc u))) v = (v = u \<or> map_get (visitedURLs wc) v)"
  by (auto simp: tryAdmit_def map_get_upd)

lemma tryAdmit_flag: "snd (tryAdmit wc u) = (\<not> map_get (visitedURLs wc) u)"
  by (simp add: tryAdmit_def)

lemma onHTML_admit_visited_mono:
  "map_get (visitedURLs wc) v \<Longrightarrow> map_get (visitedURLs (fst (onHTML_admit wc u))) v"
  by (simp add: onHTML_admit_def tryAdmit_visited)

lemma onHTML_admit_flag:
  "snd (onHTML_admit wc u) \<Longrightarrow>
     \<not> map_get (visitedURLs wc) u \<and> map_get (visitedURLs (fst (onHTML_admit wc u))) u"
  by (auto simp: onHTML_admit_def tryAdmit_visited tryAdmit_flag split: if_splits)

lemma onRequest_visited [simp]: "visitedURLs (onRequest wc) = visitedURLs wc"
  by (simp add: onRequest_def)

text \<open>
  Invariant of every run: the visits issued so far are pairwise distinct and all marked
  in the visited set.
\<close>

definition visits_inv :: "WebCrawler \<times> string list \<Rightarrow> bool" where
  "visits_inv s = (distinct (snd s) \<and> (\<forall>u \<in> set (snd s). map_get (visitedURLs (fst s)) u))"

lemma step_visits_inv: "visits_inv s \<Longrightarrow> visits_inv (step s e)"
proof (cases s)
  case (Pair wc vs)
  assume inv: "visits_inv s"
  show ?thesis
  proof (cases e)
    case Request
    with Pair inv show ?thesis by (simp add: visits_inv_def)
  next
    case (Discover u)
    obtain wc' a where adm: "onHTML_admit wc u = (wc', a)" by (cases "onHTML_admit wc u")
    have mono: "\<And>v. map_get (visitedURLs wc) v \<Longrightarrow> map_get (visitedURLs wc') v"
      using onHTML_admit_visited_mono [of wc _ u] adm by simp
    show ?thesis
    proof (cases a)
      case True
      then have "\<not> map_get (visitedURLs wc) u" "map_get (visitedURLs wc') u"
        using onHTML_admit_flag [of wc u] adm by simp_all
      with Pair Discover adm True inv mono show ?thesis
        by (auto simp: visits_inv_def)
    next
      case False
      with Pair Discover adm inv mono show ?thesis
        by (auto simp: visits_inv_def)
    qed
  qed
qed

lemma foldl_step_visits_inv: "visits_inv s \<Longrightarrow> visits_inv (foldl step s evs)"
  by (induction evs arbitrary: s) (simp_all add: step_visits_inv)

lemma run_visits_inv: "visits_inv (run wc evs)"
  unfolding run_def by (rule foldl_step_visits_inv) (simp add: visits_inv_def)

lemma foldl_step_visited_mono:
  "map_get (visitedURLs (fst s)) v \<Longrightarrow> map_get (visitedURLs (fst (foldl step s evs))) v"
proof (induction evs arbitrary: s)
  case Nil
  then show ?case by simp
next
  case (Cons e evs)
  have "map_get (visitedURLs (fst (step s e))) v"
  proof (cases s)
    case (Pair wc vs)
    show ?thesis
    proof (cases e)
      case Request
      with Pair Cons.prems show ?thesis by simp
    next
      case (Discover u)
      have "map_get (visitedURLs (fst (onHTML_admit wc u))) v"
        using Pair Cons.prems by (simp add: onHTML_admit_visited_mono)
      with Pair Discover show ?thesis by (cases "onHTML_admit wc u") simp
    qed
  qed
  then show ?case using Cons.IH by simp
qed

lemma distinct_count_list_le1: "distinct xs \<Longrightarrow> count_list xs v \<le> 1"
  by (induction xs) (auto simp: count_list_0_iff)

text \<open>
  C1. The check-and-insert on \<^verbatim>\<open>visitedURLs\<close> is first-claim. A URL that is not yet in the
  visited set is inserted (and appended to \<^verbatim>\<open>foundLinks\<close>) and admitted by \<open>tryAdmit\<close>; after
  that, whatever callbacks run in between, every further attempt for the same URL is
  rejected, by the check-and-insert and by the whole link handler; and over any sequence
  of request callbacks and link discoveries, from any crawler state, no URL is handed to
  \<^verbatim>\<open>Visit\<close> more than once. (The handler consults the page budget before the visited set,
  so a discovery may also be turned away with the URL still absent; that is C2.)
\<close>

theorem tryAdmit_first_claim:
  assumes "\<not> map_get (visitedURLs wc) u"
  shows "tryAdmit wc u =
           (wc\<lparr>visitedURLs := (visitedURLs wc)(u \<mapsto> True), foundLinks := foundLinks wc @ [u]\<rparr>, True)
         \<and> map_get (visitedURLs (fst (tryAdmit wc u))) u
         \<and> \<not> snd (tryAdmit (fst (run (fst (tryAdmit wc u)) evs)) u)
         \<and> \<not> snd (onHTML_admit (fst (run (fst (tryAdmit wc u)) evs)) u)
         \<and> count_list (snd (run wc' evs')) v \<le> 1"
proof -
  have a: "tryAdmit wc u =
      (wc\<lparr>visitedURLs := (visitedURLs wc)(u \<mapsto> True), foundLinks := foundLinks wc @ [u]\<rparr>, True)"
    using assms by (simp add: tryAdmit_def)
  have b: "map_get (visitedURLs (fst (tryAdmit wc u))) u"
    by (simp add: tryAdmit_visited)
  then have c: "map_get (visitedURLs (fst (run (fst (tryAdmit wc u)) evs))) u"
    unfolding run_def by (simp add: foldl_step_visited_mono)
  have d: "\<not> snd (tryAdmit (fst (run (fst (tryAdmit wc u)) evs)) u)"
    using c by (simp add: tryAdmit_flag)
  have e: "\<not> snd (onHTML_admit (fst (run (fst (tryAdmit wc u)) evs)) u)"
    using c onHTML_admit_flag by blast
  have "distinct (snd (run wc' evs'))"
    using run_visits_inv [of wc' evs'] by (simp add: visits_inv_def)
  then have f: "count_list (snd (run wc' evs')) v \<le> 1"
    by (rule distinct_count_list_le1)
  from a b d e f show ?thesis by blast
qed

theorem tryAdmit_first_claim_witness:
  "\<not> map_get (visitedURLs (NewWebCrawler [''x''] 10)) ''http://x/a''
   \<and> map_get (visitedURLs (fst (tryAdmit (NewWebCrawler [''x''] 10) ''http://x/a''))) ''http://x/a''
   \<and> \<not> snd (onHTML_admit
          (fst (run (fst (tryAdmit (NewWebCrawler [''x''] 10) ''http://x/a''))
                 [Request, Discover ''http://x/b'', Discover ''http://x/a'']))
          ''http://x/a'')
   \<and> count_list
         (snd (run (NewWebCrawler [''x''] 10)
                 [Request, Discover ''http://x/a'', Discover ''http://x/b'', Discover ''http://x/a'']))
         ''http://x/a'' \<le> 1"
proof -
  have h: "\<not> map_get (visitedURLs (NewWebCrawler [''x''] 10)) ''http://x/a''"
    by (simp add: NewWebCrawler_def map_get_def)
  show ?thesis
    using h tryAdmit_first_claim [OF h,
        of "[Request, Discover ''http://x/b'', Discover ''http://x/a'']"
           "NewWebCrawler [''x''] 10"
           "[Request, Discover ''http://x/a'', Discover ''http://x/b'', Discover ''http://x/a'']"
           "''http://x/a''"]
    by blast
qed

subsection \<open>The page budget\<close>

lemma int64_wrap_id: "- (2 ^ 63) \<le> x \<Longrightarrow> x < 2 ^ 63 \<Longrightarrow> int64_wrap x = x"
  by (simp add: int64_wrap_def)

definition budget_inv :: "int \<Rightarrow> WebCrawler \<times> nat \<Rightarrow> bool" where
  "budget_inv P s =
     (maxPages (fst s) = P \<and> 0 \<le> pagesVisited (fst s) \<and> pagesVisited (fst s) \<le> P
      \<and> int (snd s) = pagesVisited (fst s))"

lemma tryAdmit_counters:
  "maxPages (fst (tryAdmit wc u)) = maxPages wc
   \<and> pagesVisited (fst (tryAdmit wc u)) = pagesVisited wc"
  by (simp add: tryAdmit_def)

lemma onHTML_visit_budget_inv:
  assumes "P < 2 ^ 63" and "budget_inv P (wc, n)" and "onHTML_visit wc u acc = (wc', k)"
  shows "budget_inv P (wc', n + k)"
proof (cases "pagesVisited wc \<ge> maxPages wc")
  case True
  then have "wc' = wc" "k = 0"
    using assms(3) by (simp_all add: onHTML_visit_def onHTML_admit_def)
  then show ?thesis using assms(2) by simp
next
  case False
  let ?t = "fst (tryAdmit wc u)"
  have cnt: "maxPages ?t = maxPages wc" "pagesVisited ?t = pagesVisited wc"
    by (simp_all add: tryAdmit_counters)
  have small: "pagesVisited wc + 1 \<le> P" "0 \<le> pagesVisited wc" "maxPages wc = P"
    "int n = pagesVisited wc"
    using False assms(2) by (simp_all add: budget_inv_def)
  then have wrap: "int64_wrap (pagesVisited wc + 1) = pagesVisited wc + 1"
    using assms(1) by (intro int64_wrap_id) simp_all
  show ?thesis
  proof (cases "snd (tryAdmit wc u) \<and> acc")
    case True
    then have "wc' = onRequest ?t" "k = 1"
      using assms(3) False
      by (simp_all add: onHTML_visit_def onHTML_admit_def split: prod.splits)
    then show ?thesis
      using cnt small wrap by (simp add: budget_inv_def onRequest_def)
  next
    case False
    then have "wc' = ?t" "k = 0"
      using assms(3) \<open>\<not> maxPages wc \<le> pagesVisited wc\<close>
      by (auto simp: onHTML_visit_def onHTML_admit_def split: prod.splits if_splits)
    then show ?thesis
      using cnt small by (simp add: budget_inv_def)
  qed
qed

lemma Crawl_links_budget_inv:
  "P < 2 ^ 63 \<Longrightarrow> budget_inv P s \<Longrightarrow> budget_inv P (Crawl_links s ds)"
proof (induction s ds rule: Crawl_links.induct)
  case (1 s)
  then show ?case by simp
next
  case (2 wc n u accepted ds)
  obtain wc' k where v: "onHTML_visit wc u accepted = (wc', k)"
    by (cases "onHTML_visit wc u accepted")
  have "budget_inv P (wc', n + k)"
    using onHTML_visit_budget_inv [OF "2.prems"(1) "2.prems"(2) v] .
  then show ?case using "2.IH" [OF v [symmetric] "2.prems"(1)] v by simp
qed

lemma Crawl_start_budget_inv:
  "1 \<le> P \<Longrightarrow> P < 2 ^ 63 \<Longrightarrow> budget_inv P (Crawl_start (NewWebCrawler ds P) acc)"
  by (simp add: Crawl_start_def NewWebCrawler_def budget_inv_def onRequest_def int64_wrap_def)

text \<open>
  C2, as stated: after every increment \<open>pagesVisited \<le> maxPages\<close>, and a run with
  \<open>maxPages = P\<close> never dispatches more than \<open>P\<close> requests. This fails for \<open>P = 0\<close>: the
  start URL goes to the collector without a budget check, so the first request callback
  raises the counter to 1 above a limit of 0.
\<close>

theorem budget_bound_counterexample:
  "pagesVisited (fst (Crawl (NewWebCrawler [''x''] 0) True [])) = 1
   \<and> maxPages (fst (Crawl (NewWebCrawler [''x''] 0) True [])) = 0
   \<and> snd (Crawl (NewWebCrawler [''x''] 0) True []) = 1
   \<and> \<not> pagesVisited (fst (Crawl (NewWebCrawler [''x''] 0) True []))
         \<le> maxPages (fst (Crawl (NewWebCrawler [''x''] 0) True []))"
  by (simp add: Crawl_def Crawl_start_def NewWebCrawler_def onRequest_def int64_wrap_def)

text \<open>
  C2, amended: for a page limit \<open>P\<close> of at least 1, in a sequential crawl started by one
  \<^verbatim>\<open>Crawl\<close> call on a fresh crawler, after every callback \<open>pagesVisited \<le> maxPages = P\<close>, the
  number of requests dispatched equals \<open>pagesVisited\<close> and so never exceeds \<open>P\<close>; and in
  any crawler state with \<open>pagesVisited \<ge> maxPages\<close> the link handler admits nothing and
  leaves the state as it is. (Every prefix of a discovery sequence is a discovery
  sequence, so the bound holds at every observation point.)
\<close>

theorem budget_bound:
  assumes "1 \<le> P" and "P < 2 ^ 63"
  shows "pagesVisited (fst (Crawl (NewWebCrawler doms P) accepted ds)) \<le> P
         \<and> maxPages (fst (Crawl (NewWebCrawler doms P) accepted ds)) = P
         \<and> int (snd (Crawl (NewWebCrawler doms P) accepted ds))
             = pagesVisited (fst (Crawl (NewWebCrawler doms P) accepted ds))
         \<and> (maxPages wc \<le> pagesVisited wc \<longrightarrow> onHTML_admit wc u = (wc, False))"
proof -
  have "budget_inv P (Crawl (NewWebCrawler doms P) accepted ds)"
    unfolding Crawl_def
    using assms by (intro Crawl_links_budget_inv Crawl_start_budget_inv)
  moreover have "maxPages wc \<le> pagesVisited wc \<longrightarrow> onHTML_admit wc u = (wc, False)"
    by (simp add: onHTML_admit_def)
  ultimately show ?thesis by (simp add: budget_inv_def)
qed

theorem budget_bound_witness:
  "(1::int) \<le> 3 \<and> (3::int) < 2 ^ 63
   \<and> pagesVisited (fst (Crawl (NewWebCrawler [''x''] 3) True
        [(''http://x/a'', True), (''http://x/b'', True), (''http://x/c'', True),
         (''http://x/d'', True), (''http://x/e'', True)])) \<le> 3
   \<and> snd (Crawl (NewWebCrawler [''x''] 3) True
        [(''http://x/a'', True), (''http://x/b'', True), (''http://x/c'', True),
         (''http://x/d'', True), (''http://x/e'', True)]) = 3"
proof -
  have h1: "(1::int) \<le> 3" and h2: "(3::int) < 2 ^ 63" by simp_all
  have "snd (Crawl (NewWebCrawler [''x''] 3) True
        [(''http://x/a'', True), (''http://x/b'', True), (''http://x/c'', True),
         (''http://x/d'', True), (''http://x/e'', True)]) = 3"
    by (simp add: Crawl_def Crawl_start_def NewWebCrawler_def onRequest_def int64_wrap_def
        onHTML_visit_def onHTML_admit_def tryAdmit_def map_get_def)
  then show ?thesis
    using h1 h2 budget_bound [OF h1 h2, of "[''x'']" True
        "[(''http://x/a'', True), (''http://x/b'', True), (''http://x/c'', True),
          (''http://x/d'', True), (''http://x/e'', True)]"]
    by simp
qed

subsection \<open>Link normalisation\<close>

lemma normalizeLink_None_iff:
  "normalizeLink L base link = None \<longleftrightarrow>
     link = [] \<or> HasPrefix link ''#'' \<or> HasPrefix link ''javascript:''
     \<or> AbsoluteURL L base link = [] \<or> url_Parse L (AbsoluteURL L base link) = None"
  by (auto simp: normalizeLink_def parsedURL_of_def Let_def split: option.splits)

text \<open>
  C3, as stated: normalisation rejects a link exactly when it is empty, starts with \<^verbatim>\<open>#\<close>,
  uses a scheme other than http or https, or fails to parse. The handler tests for one
  scheme only, the prefix \<^verbatim>\<open>javascript:\<close>. A \<^verbatim>\<open>mailto:\<close> link, which the library resolves and
  parses, is normalised, recorded in \<^verbatim>\<open>foundLinks\<close> and handed to \<^verbatim>\<open>Visit\<close>.
\<close>

theorem normalize_rejects_counterexample:
  "spec_rejects sample_lib ''http://x/'' ''mailto:a@b''
   \<and> normalizeLink sample_lib ''http://x/'' ''mailto:a@b'' = Some ''mailto:a@b''
   \<and> snd (onHTML sample_lib (NewWebCrawler [''x''] 10) ''http://x/'' ''mailto:a@b'')
       = Some ''mailto:a@b''
   \<and> foundLinks (fst (onHTML sample_lib (NewWebCrawler [''x''] 10) ''http://x/'' ''mailto:a@b''))
       = [''mailto:a@b'']"
proof -
  have a: "spec_rejects sample_lib ''http://x/'' ''mailto:a@b''"
    by (simp add: spec_rejects_def link_scheme_def is_letter_def is_scheme_char_def to_lower_def)
  have b: "normalizeLink sample_lib ''http://x/'' ''mailto:a@b'' = Some ''mailto:a@b''"
    by (simp add: normalizeLink_def parsedURL_of_def sample_lib_def sample_URL_def
        sample_String_def HasPrefix_def)
  have c: "onHTML_admit (NewWebCrawler [''x''] 10) ''mailto:a@b'' =
     ((NewWebCrawler [''x''] 10)\<lparr>visitedURLs := [''mailto:a@b'' \<mapsto> True],
        foundLinks := [''mailto:a@b'']\<rparr>, True)"
    by (simp add: onHTML_admit_def tryAdmit_def NewWebCrawler_def map_get_def)
  from a b c show ?thesis by (simp add: onHTML_def)
qed

text \<open>
  C3, amended: normalisation rejects a link exactly when it is empty, starts with \<^verbatim>\<open>#\<close>,
  starts with \<^verbatim>\<open>javascript:\<close>, cannot be resolved to an absolute URL, or the absolute URL
  fails to parse; a rejected link changes nothing in the crawler and is not visited.
\<close>

theorem normalize_rejects:
  "(normalizeLink L base link = None \<longleftrightarrow>
      link = [] \<or> HasPrefix link ''#'' \<or> HasPrefix link ''javascript:''
      \<or> AbsoluteURL L base link = [] \<or> url_Parse L (AbsoluteURL L base link) = None)
   \<and> (normalizeLink L base link = None \<longrightarrow> onHTML L wc base link = (wc, None))"
proof -
  have "onHTML L wc base link = (wc, None)" if "normalizeLink L base link = None"
    using that by (simp add: onHTML_def)
  then show ?thesis
    using normalizeLink_None_iff [of L base link] by blast
qed

theorem normalize_rejects_witness:
  "normalizeLink sample_lib ''http://x/'' ''javascript:void(0)'' = None
   \<and> onHTML sample_lib (NewWebCrawler [''x''] 10) ''http://x/'' ''javascript:void(0)''
       = (NewWebCrawler [''x''] 10, None)
   \<and> normalizeLink sample_lib ''http://x/'' ''#anchor'' = None
   \<and> normalizeLink sample_lib ''http://x/'' [] = None"
proof -
  have "HasPrefix ''javascript:void(0)'' ''javascript:''" "HasPrefix ''#anchor'' ''#''"
    by (simp_all add: HasPrefix_def)
  then show ?thesis
    using normalize_rejects [of sample_lib "''http://x/''" "''javascript:void(0)''"
        "NewWebCrawler [''x''] 10"]
      normalize_rejects [of sample_lib "''http://x/''" "''#anchor''"]
      normalize_rejects [of sample_lib "''http://x/''" "[]"]
    by blast
qed

lemma parsedURL_of_Some:
  "parsedURL_of L base link = Some v \<Longrightarrow>
     \<exists>u. url_Parse L (AbsoluteURL L base link) = Some u \<and> v = u\<lparr>Fragment := []\<rparr>"
  by (auto simp: parsedURL_of_def Let_def split: if_splits option.splits)

lemma normalizeLink_Some:
  "normalizeLink L base link = Some n \<Longrightarrow> url_Parse L (AbsoluteURL L base link) = Some u \<Longrightarrow>
     parsedURL_of L base link = Some (u\<lparr>Fragment := []\<rparr>) \<and> n = URL_String L (u\<lparr>Fragment := []\<rparr>)"
proof -
  assume n: "normalizeLink L base link = Some n"
    and u: "url_Parse L (AbsoluteURL L base link) = Some u"
  from n obtain v where v: "parsedURL_of L base link = Some v" "n = URL_String L v"
    by (auto simp: normalizeLink_def)
  from parsedURL_of_Some [OF v(1)] u have "v = u\<lparr>Fragment := []\<rparr>" by auto
  with v show ?thesis by simp
qed

lemma onHTML_admit_marks:
  "onHTML_admit wc u = (wc1, True) \<Longrightarrow> map_get (visitedURLs wc1) u"
  using onHTML_admit_flag [of wc u] by simp

lemma onHTML_admit_visited_rejects:
  "map_get (visitedURLs wc) u \<Longrightarrow> onHTML_admit wc u = (wc, False)"
  by (simp add: onHTML_admit_def tryAdmit_def)

text \<open>
  C4. For a link that is normalised successfully, the normalised URL is the rendering of
  the parsed absolute URL with the fragment cleared and every other component (scheme,
  opaque part, user, host, path, query) as parsed. Hence two links whose parsed absolute
  URLs differ only in the fragment normalise to the same URL, and once the handler has
  admitted one of them, the other is not admitted, whatever callbacks run in between.
\<close>

theorem fragment_normalization:
  assumes "normalizeLink L base l1 = Some n1" and "normalizeLink L base l2 = Some n2"
    and "url_Parse L (AbsoluteURL L base l1) = Some u1"
    and "url_Parse L (AbsoluteURL L base l2) = Some u2"
    and "u2 = u1\<lparr>Fragment := f\<rparr>"
  shows "(\<exists>v. parsedURL_of L base l1 = Some v \<and> n1 = URL_String L v
            \<and> Fragment v = [] \<and> Scheme v = Scheme u1 \<and> Opaque v = Opaque u1
            \<and> User v = User u1 \<and> Host v = Host u1 \<and> Path v = Path u1
            \<and> RawPath v = RawPath u1 \<and> RawQuery v = RawQuery u1)
         \<and> n2 = n1
         \<and> (onHTML L wc base l1 = (wc1, Some n1) \<longrightarrow>
              snd (onHTML L (fst (foldl step (wc1, vs) evs)) base l2) = None)"
proof -
  let ?v = "u1\<lparr>Fragment := []\<rparr>"
  have p1: "parsedURL_of L base l1 = Some ?v" "n1 = URL_String L ?v"
    using normalizeLink_Some [OF assms(1) assms(3)] by simp_all
  have "n2 = URL_String L (u2\<lparr>Fragment := []\<rparr>)"
    using normalizeLink_Some [OF assms(2) assms(4)] by simp
  then have same: "n2 = n1" using p1(2) assms(5) by simp
  have once: "snd (onHTML L (fst (foldl step (wc1, vs) evs)) base l2) = None"
    if adm: "onHTML L wc base l1 = (wc1, Some n1)"
  proof -
    have "onHTML_admit wc n1 = (wc1, True)"
      using adm assms(1) by (auto simp: onHTML_def split: prod.splits if_splits)
    then have "map_get (visitedURLs wc1) n1" by (rule onHTML_admit_marks)
    then have "map_get (visitedURLs (fst (foldl step (wc1, vs) evs))) n1"
      using foldl_step_visited_mono [of "(wc1, vs)" n1 evs] by simp
    then show ?thesis
      using assms(2) same by (simp add: onHTML_def onHTML_admit_visited_rejects)
  qed
  from p1 same once show ?thesis by simp
qed

theorem fragment_normalization_witness:
  "normalizeLink sample_lib ''http://x/'' ''/page1#a'' = Some ''http://x/page1''
   \<and> normalizeLink sample_lib ''http://x/'' ''/page1#b'' = Some ''http://x/page1''
   \<and> url_Parse sample_lib (AbsoluteURL sample_lib ''http://x/'' ''/page1#a'')
       = Some (sample_URL\<lparr>Fragment := ''a''\<rparr>)
   \<and> url_Parse sample_lib (AbsoluteURL sample_lib ''http://x/'' ''/page1#b'')
       = Some (sample_URL\<lparr>Fragment := ''b''\<rparr>)
   \<and> onHTML sample_lib (NewWebCrawler [''x''] 10) ''http://x/'' ''/page1#a''
       = ((NewWebCrawler [''x''] 10)\<lparr>visitedURLs := [''http://x/page1'' \<mapsto> True],
             foundLinks := [''http://x/page1'']\<rparr>, Some ''http://x/page1'')
   \<and> snd (onHTML sample_lib
         (fst (foldl step ((NewWebCrawler [''x''] 10)\<lparr>visitedURLs := [''http://x/page1'' \<mapsto> True],
             foundLinks := [''http://x/page1'']\<rparr>, [''http://x/page1'']) [Request]))
         ''http://x/'' ''/page1#b'') = None"
proof -
  have h1: "normalizeLink sample_lib ''http://x/'' ''/page1#a'' = Some ''http://x/page1''"
    and h2: "normalizeLink sample_lib ''http://x/'' ''/page1#b'' = Some ''http://x/page1''"
    by (simp_all add: normalizeLink_def parsedURL_of_def sample_lib_def sample_URL_def
        sample_String_def HasPrefix_def)
  have h3: "url_Parse sample_lib (AbsoluteURL sample_lib ''http://x/'' ''/page1#a'')
       = Some (sample_URL\<lparr>Fragment := ''a''\<rparr>)"
    and h4: "url_Parse sample_lib (AbsoluteURL sample_lib ''http://x/'' ''/page1#b'')
       = Some (sample_URL\<lparr>Fragment := ''b''\<rparr>)"
    by (simp_all add: sample_lib_def)
  have h5: "sample_URL\<lparr>Fragment := ''b''\<rparr> = sample_URL\<lparr>Fragment := ''a''\<rparr>\<lparr>Fragment := ''b''\<rparr>"
    by simp
  have h6: "onHTML sample_lib (NewWebCrawler [''x''] 10) ''http://x/'' ''/page1#a''
       = ((NewWebCrawler [''x''] 10)\<lparr>visitedURLs := [''http://x/page1'' \<mapsto> True],
             foundLinks := [''http://x/page1'']\<rparr>, Some ''http://x/page1'')"
    using h1 by (simp add: onHTML_def onHTML_admit_def tryAdmit_def NewWebCrawler_def map_get_def)
  show ?thesis
    using h1 h2 h3 h4 h6
      fragment_normalization [OF h1 h2 h3 h4 h5, of "NewWebCrawler [''x''] 10"
        "(NewWebCrawler [''x''] 10)\<lparr>visitedURLs := [''http://x/page1'' \<mapsto> True],
             foundLinks := [''http://x/page1'']\<rparr>" "[''http://x/page1'']" "[Request]"]
    by blast
qed

subsection \<open>The returned copy of the found links\<close>

lemma GetFoundLinks_facts:
  assumes "valid_slice h fl"
  shows "elems (fst (GetFoundLinks h fl)) (snd (GetFoundLinks h fl)) = elems h fl"
    and "elems (fst (GetFoundLinks h fl)) fl = elems h fl"
    and "array (snd (GetFoundLinks h fl)) \<noteq> array fl"
    and "valid_slice (fst (GetFoundLinks h fl)) fl"
    and "len (snd (GetFoundLinks h fl)) = len fl"
  using assms
  by (auto simp: GetFoundLinks_def make_slice_def copy_slice_def elems_def valid_slice_def
      nth_append Let_def)

lemma set_elem_other:
  "set_elem h s i v = Some h' \<Longrightarrow> array s \<noteq> array t \<Longrightarrow>
     elems h' t = elems h t \<and> (valid_slice h t \<longrightarrow> valid_slice h' t)"
  by (auto simp: set_elem_def elems_def valid_slice_def split: if_splits)

text \<open>
  C10. \<^verbatim>\<open>GetFoundLinks\<close> returns a fresh copy. For every store in which the crawler's
  \<^verbatim>\<open>foundLinks\<close> slice is well formed, the returned slice has the elements of
  \<^verbatim>\<open>foundLinks\<close> and lives in another backing array, and the call leaves \<^verbatim>\<open>foundLinks\<close> as
  it was; assigning to any element of the returned slice (which succeeds at every index
  below the length) leaves the elements of \<^verbatim>\<open>foundLinks\<close> unchanged, so that a second
  call returns the same elements again.
\<close>

theorem GetFoundLinks_fresh_copy:
  assumes "valid_slice h fl"
  shows "elems (fst (GetFoundLinks h fl)) (snd (GetFoundLinks h fl)) = elems h fl
         \<and> array (snd (GetFoundLinks h fl)) \<noteq> array fl
         \<and> elems (fst (GetFoundLinks h fl)) fl = elems h fl
         \<and> (i < len fl \<longrightarrow> set_elem (fst (GetFoundLinks h fl)) (snd (GetFoundLinks h fl)) i v \<noteq> None)
         \<and> (set_elem (fst (GetFoundLinks h fl)) (snd (GetFoundLinks h fl)) i v = Some h2 \<longrightarrow>
               elems h2 fl = elems h fl
               \<and> elems (fst (GetFoundLinks h2 fl)) (snd (GetFoundLinks h2 fl)) = elems h fl)"
proof -
  let ?h1 = "fst (GetFoundLinks h fl)" and ?links = "snd (GetFoundLinks h fl)"
  note f = GetFoundLinks_facts [OF assms]
  have ok: "set_elem ?h1 ?links i v \<noteq> None" if "i < len fl"
    using that f(5) by (simp add: set_elem_def)
  have after: "elems h2 fl = elems h fl
      \<and> elems (fst (GetFoundLinks h2 fl)) (snd (GetFoundLinks h2 fl)) = elems h fl"
    if w: "set_elem ?h1 ?links i v = Some h2"
  proof -
    from set_elem_other [OF w f(3)] f(2) f(4)
    have e: "elems h2 fl = elems h fl" and v: "valid_slice h2 fl" by simp_all
    from GetFoundLinks_facts(1) [OF v] e show ?thesis by simp
  qed
  from f(1) f(3) f(2) ok after show ?thesis by blast
qed

theorem GetFoundLinks_fresh_copy_witness:
  "valid_slice [[''http://example.com/page1'']] \<lparr>array = 0, off = 0, len = 1, cap = 1\<rparr>
   \<and> GetFoundLinks [[''http://example.com/page1'']] \<lparr>array = 0, off = 0, len = 1, cap = 1\<rparr>
       = ([[''http://example.com/page1''], [''http://example.com/page1'']],
          \<lparr>array = 1, off = 0, len = 1, cap = 1\<rparr>)
   \<and> set_elem [[''http://example.com/page1''], [''http://example.com/page1'']]
        \<lparr>array = 1, off = 0, len = 1, cap = 1\<rparr> 0 ''modified''
       = Some [[''http://example.com/page1''], [''modified'']]
   \<and> elems (fst (GetFoundLinks [[''http://example.com/page1''], [''modified'']]
                \<lparr>array = 0, off = 0, len = 1, cap = 1\<rparr>))
            (snd (GetFoundLinks [[''http://example.com/page1''], [''modified'']]
                \<lparr>array = 0, off = 0, len = 1, cap = 1\<rparr>))
       = elems [[''http://example.com/page1'']] \<lparr>array = 0, off = 0, len = 1, cap = 1\<rparr>"
proof -
  let ?h = "[[''http://example.com/page1'']]"
  let ?fl = "\<lparr>array = 0, off = 0, len = 1, cap = 1\<rparr>"
  have v: "valid_slice ?h ?fl" by (simp add: valid_slice_def)
  have g: "GetFoundLinks ?h ?fl
       = ([[''http://example.com/page1''], [''http://example.com/page1'']],
          \<lparr>array = 1, off = 0, len = 1, cap = 1\<rparr>)"
    by (simp add: GetFoundLinks_def make_slice_def copy_slice_def elems_def)
  have w: "set_elem [[''http://example.com/page1''], [''http://example.com/page1'']]
        \<lparr>array = 1, off = 0, len = 1, cap = 1\<rparr> 0 ''modified''
       = Some [[''http://example.com/page1''], [''modified'']]"
    by (simp add: set_elem_def)
  show ?thesis
    using v g w
      GetFoundLinks_fresh_copy [OF v, of 0 "''modified''"
        "[[''http://example.com/page1''], [''modified'']]"]
    by simp
qed

subsection \<open>The depth bound\<close>

text \<open>
  The dispatched tasks are within the limit, and each one beyond the seed was found on a
  dispatched page one level above.
\<close>

definition tasks_ok :: "nat \<Rightarrow> (string \<times> nat) set \<Rightarrow> bool" where
  "tasks_ok maxDepth T =
     (\<forall>u k. (u, k) \<in> T \<longrightarrow> k \<le> maxDepth \<and> (k = 0 \<or> (\<exists>b. (b, k - 1) \<in> T)))"

lemma tasks_ok_insert:
  assumes "tasks_ok maxDepth T" and "(base, d) \<in> T" and "d + 1 \<le> maxDepth"
  shows "tasks_ok maxDepth (insert (u, d + 1) T)"
  unfolding tasks_ok_def
proof (intro allI impI)
  fix v k
  assume "(v, k) \<in> insert (u, d + 1) T"
  then consider "k = d + 1" | "(v, k) \<in> T" by auto
  then show "k \<le> maxDepth \<and> (k = 0 \<or> (\<exists>b. (b, k - 1) \<in> insert (u, d + 1) T))"
  proof cases
    case 1
    with assms(2,3) show ?thesis by auto
  next
    case 2
    with assms(1) have "k \<le> maxDepth \<and> (k = 0 \<or> (\<exists>b. (b, k - 1) \<in> T))"
      unfolding tasks_ok_def by blast
    then show ?thesis by blast
  qed
qed

lemma dispatch_links_tasks:
  "tasks_ok maxDepth (set (snd st)) \<Longrightarrow> (base, d) \<in> set (snd st) \<Longrightarrow>
     tasks_ok maxDepth (set (snd (dispatch_links L page permitted maxDepth d base links st)))
     \<and> set (snd st) \<subseteq> set (snd (dispatch_links L page permitted maxDepth d base links st))"
proof (induction L page permitted maxDepth d base links st rule: dispatch_links.induct)
  case (1 L page permitted maxDepth d base st)
  then show ?case by (simp add: dispatch_links.simps)
next
  case (2 L page permitted maxDepth d base link links st)
  obtain wc' r where h: "onHTML L (fst st) base link = (wc', r)" by (cases "onHTML L (fst st) base link")
  show ?case
  proof (cases r)
    case None
    have eq: "dispatch_links L page permitted maxDepth d base (link # links) st
        = dispatch_links L page permitted maxDepth d base links (wc', snd st)"
      by (subst dispatch_links.simps) (simp only: h None prod.case option.case)
    from "2.IH"(1) [OF h [symmetric] None] "2.prems" show ?thesis
      unfolding eq by simp
  next
    case (Some u)
    show ?thesis
    proof (cases "permitted u \<and> d + 1 \<le> maxDepth")
      case False
      have eq: "dispatch_links L page permitted maxDepth d base (link # links) st
          = dispatch_links L page permitted maxDepth d base links (wc', snd st)"
        by (subst dispatch_links.simps)
           (simp only: h Some prod.case option.case if_not_P [OF False])
      from "2.IH"(4) [OF h [symmetric] Some False] "2.prems" show ?thesis
        unfolding eq by simp
    next
      case True
      let ?st1 = "(onRequest wc', snd st @ [(u, d + 1)])"
      let ?st2 = "dispatch_links L page permitted maxDepth (d + 1) u (page u) ?st1"
      have eq: "dispatch_links L page permitted maxDepth d base (link # links) st
          = dispatch_links L page permitted maxDepth d base links ?st2"
        by (subst dispatch_links.simps)
           (simp only: h Some prod.case option.case if_P [OF True])
      have ok1: "tasks_ok maxDepth (set (snd ?st1))"
        using tasks_ok_insert [OF "2.prems"(1) "2.prems"(2), of u] True by simp
      have in1: "(u, d + 1) \<in> set (snd ?st1)" by simp
      from "2.IH"(2) [OF h [symmetric] Some True ok1 in1]
      have ok2: "tasks_ok maxDepth (set (snd ?st2))" and sub2: "set (snd ?st1) \<subseteq> set (snd ?st2)"
        by blast+
      from sub2 "2.prems"(2) have in2: "(base, d) \<in> set (snd ?st2)" by auto
      have sub1: "set (snd st) \<subseteq> set (snd ?st1)" by auto
      from "2.IH"(3) [OF h [symmetric] Some True ok2 in2] sub2 sub1
      show ?thesis unfolding eq by blast
    qed
  qed
qed

lemma Crawl_dispatch_tasks:
  "tasks_ok MaxDepth (set (snd (Crawl_dispatch L page permitted wc startURL)))"
proof (cases "permitted startURL")
  case False
  then show ?thesis by (simp add: Crawl_dispatch_def tasks_ok_def)
next
  case True
  have "tasks_ok MaxDepth (set (snd (onRequest wc, [(startURL, 0::nat)])))"
    by (simp add: tasks_ok_def)
  from dispatch_links_tasks [OF this, of startURL 0 L page permitted "page startURL"] True
  show ?thesis by (simp add: Crawl_dispatch_def)
qed

lemma chain_onHTML:
  "link \<in> {''b'', ''c'', ''d'', ''e'', ''f''} \<Longrightarrow> pagesVisited wc < maxPages wc \<Longrightarrow>
     \<not> map_get (visitedURLs wc) link \<Longrightarrow>
     onHTML chain_lib wc base link =
       (wc\<lparr>visitedURLs := (visitedURLs wc)(link \<mapsto> True),
           foundLinks := foundLinks wc @ [link]\<rparr>, Some link)"
  by (auto simp: onHTML_def normalizeLink_def parsedURL_of_def chain_lib_def HasPrefix_def
      onHTML_admit_def tryAdmit_def)

lemma chain_log:
  "snd (Crawl_dispatch chain_lib chain_page (\<lambda>u. True) (NewWebCrawler [] 10) ''a'')
     = [(''a'', 0), (''b'', 1), (''c'', 2), (''d'', 3)]"
  by (simp add: Crawl_dispatch_def MaxDepth_def dispatch_links.simps chain_page_def
      chain_onHTML NewWebCrawler_def onRequest_def int64_wrap_def map_get_def)

text \<open>
  Claim C6: no task is dispatched with a depth greater than the limit; a link discovered
  on a page of depth \<open>d\<close> becomes a task at depth \<open>d + 1\<close> only if \<open>d + 1\<close> is within the
  limit. For every dispatched task the depth is at most \<open>MaxDepth\<close>, which is 3, and a task
  that is not at depth 0 was found on a dispatched page one level above it.
\<close>

theorem depth_bound:
  "(u, d) \<in> set (snd (Crawl_dispatch L page permitted wc startURL)) \<Longrightarrow>
     d \<le> MaxDepth \<and> d \<le> 3
     \<and> (d = 0 \<or> (\<exists>b. (b, d - 1) \<in> set (snd (Crawl_dispatch L page permitted wc startURL))))"
  using Crawl_dispatch_tasks [of L page permitted wc startURL]
  unfolding tasks_ok_def MaxDepth_def by blast

text \<open>
  On the chain of pages the crawl stops at \<^verbatim>\<open>d\<close>, the page at depth 3: the link to \<^verbatim>\<open>e\<close>
  is admitted by the handler and refused by the dispatcher.
\<close>

theorem depth_bound_witness:
  "snd (Crawl_dispatch chain_lib chain_page (\<lambda>u. True) (NewWebCrawler [] 10) ''a'')
     = [(''a'', 0), (''b'', 1), (''c'', 2), (''d'', 3)]
   \<and> (3::nat) \<le> MaxDepth
   \<and> (\<exists>b. (b, 2) \<in> set (snd (Crawl_dispatch chain_lib chain_page (\<lambda>u. True)
                                    (NewWebCrawler [] 10) ''a'')))"
  using depth_bound [of "''d''" 3 chain_lib chain_page "\<lambda>u. True" "NewWebCrawler [] 10" "''a''"]
    chain_log
  by simp

section \<open>Properties of the advanced scraper\<close>

lemma onError_retry: "snd (onError c) \<longleftrightarrow> c = 429 \<or> c = 503"
  by (simp add: onError_def)

lemma fetch_task_Some_stops:
  assumes "fetch_task server k s = Some r"
  shows "\<exists>j. k \<le> j \<and> \<not> snd (onError (server j))"
proof (rule fetch_task.raw_induct
    [where P = "\<lambda>server k s r. \<exists>j. k \<le> j \<and> \<not> snd (onError (server j))", OF _ assms])
  fix f :: "(nat \<Rightarrow> int) \<Rightarrow> nat \<Rightarrow> nat \<Rightarrow> (nat \<times> nat) option"
  fix server k s r
  assume IH: "\<And>server k s r. f server k s = Some r \<Longrightarrow> \<exists>j. k \<le> j \<and> \<not> snd (onError (server j))"
    and body: "(case onError (server k) of
        (d, retry) \<Rightarrow> if retry then f server (Suc k) (s + d) else Some (Suc k, s + d)) = Some r"
  show "\<exists>j. k \<le> j \<and> \<not> snd (onError (server j))"
  proof (cases "snd (onError (server k))")
    case True
    with body have "f server (Suc k) (s + fst (onError (server k))) = Some r"
      by (simp split: prod.splits)
    from IH [OF this] obtain j where j: "Suc k \<le> j" "\<not> snd (onError (server j))" by auto
    from j(1) have "k \<le> j" by simp
    with j(2) show ?thesis by auto
  next
    case False
    have "k \<le> k" by simp
    with False show ?thesis by auto
  qed
qed

lemma fetch_task_forever:
  "(\<forall>j. server j = 429 \<or> server j = 503) \<Longrightarrow> fetch_task server k s = None"
  using fetch_task_Some_stops [of server k s] by (cases "fetch_task server k s") (auto simp: onError_retry)

lemma fetch_task_count:
  "(\<forall>j. k \<le> j \<and> j < k + n \<longrightarrow> server j = 429 \<or> server j = 503) \<Longrightarrow>
   server (k + n) \<noteq> 429 \<Longrightarrow> server (k + n) \<noteq> 503 \<Longrightarrow>
     fetch_task server k s = Some (Suc (k + n), s + 5 * n)"
proof (induction n arbitrary: k s)
  case 0
  then show ?case by (subst fetch_task.simps) (simp add: onError_def)
next
  case (Suc n)
  have "server k = 429 \<or> server k = 503" using Suc.prems(1) by simp
  then have "onError (server k) = (5, True)" by (auto simp: onError_def)
  moreover have "fetch_task server (Suc k) (s + 5) = Some (Suc (Suc k + n), (s + 5) + 5 * n)"
    using Suc.prems by (intro Suc.IH) auto
  ultimately show ?case by (subst fetch_task.simps) simp
qed

text \<open>
  C5, as stated: a task whose fetch always fails with 429 or 503 is retried at most a
  maximum number of times, is then dropped, and the run terminates. The callback has no
  attempt bound: against a server that always answers 503 the task never finishes.
\<close>

theorem retry_then_drop_counterexample:
  "fetch_task (\<lambda>k. 503) 0 0 = None"
  by (rule fetch_task_forever) simp

text \<open>
  C5, amended: a response with status 429 or 503 is retried after a five-second sleep
  inside the error callback, and no other status is retried; there is no bound on the
  attempts. A task that fails transiently \<open>n\<close> times and then gets another status is
  fetched exactly \<open>n + 1\<close> times, having slept \<open>5 n\<close> seconds, for every \<open>n\<close>; a task
  that always fails transiently is retried for ever and is never dropped.
\<close>

theorem retry_unbounded:
  "(snd (onError c) \<longleftrightarrow> c = 429 \<or> c = 503)
   \<and> ((\<forall>j < n. server j = 429 \<or> server j = 503) \<and> server n \<noteq> 429 \<and> server n \<noteq> 503
        \<longrightarrow> fetch_task server 0 0 = Some (Suc n, 5 * n))
   \<and> ((\<forall>j. server j = 429 \<or> server j = 503) \<longrightarrow> fetch_task server 0 0 = None)"
  using fetch_task_count [of 0 n server 0] fetch_task_forever [of server 0 0]
  by (simp add: onError_retry)

theorem retry_unbounded_witness:
  "fetch_task (\<lambda>k. if k < 3 then 503 else 200) 0 0 = Some (4, 15)
   \<and> fetch_task (\<lambda>k. 429) 0 0 = None"
  using retry_unbounded [of 0 3 "\<lambda>k. if k < 3 then 503 else 200"]
    retry_unbounded [of 0 0 "\<lambda>k. 429"]
  by simp

subsection \<open>Validation of the configuration\<close>

text \<open>
  C7, as stated: every configuration input is validated when a run is constructed or
  started, and an invalid value such as a negative count makes the run fail before any
  fetch. \<^verbatim>\<open>NewWebCrawler\<close> has no error result and checks nothing: a crawler with a negative
  page limit is constructed, and its run dispatches the request for the start URL.
\<close>

theorem config_validation_counterexample:
  "maxPages (NewWebCrawler [''x''] (- 5)) = - 5
   \<and> snd (Crawl (NewWebCrawler [''x''] (- 5)) True []) = 1
   \<and> pagesVisited (fst (Crawl (NewWebCrawler [''x''] (- 5)) True [])) = 1"
  by (simp add: Crawl_def Crawl_start_def NewWebCrawler_def onRequest_def int64_wrap_def)

text \<open>
  C7, amended: the only validation is that of the start URL in \<^verbatim>\<open>Scraper.Scrape\<close>: when
  \<^verbatim>\<open>url.Parse\<close> rejects it, \<^verbatim>\<open>Scrape\<close> returns an error and nothing is handed to the
  collector; otherwise the start URL is handed to the collector. \<^verbatim>\<open>NewWebCrawler\<close> accepts
  every page limit and every domain list, and whatever the limit, the request for an
  accepted start URL is dispatched.
\<close>

theorem config_validation:
  "(url_Parse L startURL = None \<longrightarrow> Scrape L visit_fails startURL = (Some InvalidURL, []))
   \<and> (url_Parse L startURL \<noteq> None \<longrightarrow> snd (Scrape L visit_fails startURL) = [startURL])
   \<and> maxPages (NewWebCrawler doms mp) = mp
   \<and> snd (Crawl_start (NewWebCrawler doms mp) True) = 1"
  by (auto simp: Scrape_def NewWebCrawler_def Crawl_start_def split: option.splits)

theorem config_validation_witness:
  "url_Parse sample_lib '':'' = None
   \<and> Scrape sample_lib (\<lambda>u. False) '':'' = (Some InvalidURL, [])
   \<and> url_Parse sample_lib ''http://x/page1#a'' \<noteq> None
   \<and> snd (Scrape sample_lib (\<lambda>u. False) ''http://x/page1#a'') = [''http://x/page1#a'']"
proof -
  have "url_Parse sample_lib '':'' = None" "url_Parse sample_lib ''http://x/page1#a'' \<noteq> None"
    by (simp_all add: sample_lib_def)
  then show ?thesis
    using config_validation [of sample_lib "'':''" "\<lambda>u. False"]
      config_validation [of sample_lib "''http://x/page1#a''" "\<lambda>u. False"]
    by blast
qed

section \<open>Properties of the basic scraper\<close>

subsection \<open>CSV export\<close>

lemma write_rows_ok:
  "(\<forall>j. k \<le> j \<and> j < k + length products \<longrightarrow> write_ok j) \<Longrightarrow>
     write_rows write_ok f k products written = (None, written @ map (row f) products)"
proof (induction products arbitrary: k written)
  case Nil
  then show ?case by simp
next
  case (Cons p ps)
  have "write_ok k" using Cons.prems by simp
  moreover have "write_rows write_ok f (Suc k) ps (written @ [row f p])
      = (None, (written @ [row f p]) @ map (row f) ps)"
    using Cons.prems by (intro Cons.IH) auto
  ultimately show ?case by simp
qed

text \<open>
  C9. When the file can be created, every write succeeds and the deferred flush delivers
  the buffer, \<^verbatim>\<open>exportToCSV\<close> returns no error and the file holds the header
  \<^verbatim>\<open>Name, Price, URL, Image, Scraped At\<close> followed by one record per product, in the order
  of the list, each being the name, the price, the URL, the image and the scrape time in
  RFC 3339 format; for the empty list the header is the only record. When the flush fails
  instead, the function still returns no error and the file is incomplete.
\<close>

theorem exportToCSV_rows:
  assumes "create_ok" and "\<forall>k \<le> length products. write_ok k"
  shows "exportToCSV create_ok write_ok flush_ok rfc3339 products
           = (None, if flush_ok then Complete (header # map (row rfc3339) products)
                    else Incomplete)
         \<and> header = [''Name'', ''Price'', ''URL'', ''Image'', ''Scraped At'']
         \<and> (\<forall>i < length products.
               (header # map (row rfc3339) products) ! Suc i =
                 [Name (products ! i), Price (products ! i), URL (products ! i),
                  Image (products ! i), rfc3339 (ScrapedAt (products ! i))])
         \<and> exportToCSV create_ok write_ok flush_ok rfc3339 []
             = (None, if flush_ok then Complete [header] else Incomplete)"
proof -
  have w0: "write_ok 0" using assms(2) by simp
  have "write_rows write_ok rfc3339 1 products [header]
      = (None, [header] @ map (row rfc3339) products)"
    using assms(2) by (intro write_rows_ok) auto
  then show ?thesis
    using assms(1) w0 by (simp add: exportToCSV_def Flush_def header_def row_def)
qed

theorem exportToCSV_rows_witness:
  "exportToCSV True (\<lambda>k. True) True (\<lambda>t. ''2024-01-01T12:00:00Z'')
        [\<lparr>URL = ''http://example.com/a'', Image = ''http://example.com/a.jpg'',
          Name = ''Product A'', Price = ''$10.00'', ScrapedAt = (0::nat)\<rparr>,
         \<lparr>URL = ''http://example.com/b'', Image = ''http://example.com/b.jpg'',
          Name = ''Product B'', Price = ''$20.00'', ScrapedAt = (0::nat)\<rparr>]
       = (None, Complete
           [[''Name'', ''Price'', ''URL'', ''Image'', ''Scraped At''],
            [''Product A'', ''$10.00'', ''http://example.com/a'', ''http://example.com/a.jpg'',
             ''2024-01-01T12:00:00Z''],
            [''Product B'', ''$20.00'', ''http://example.com/b'', ''http://example.com/b.jpg'',
             ''2024-01-01T12:00:00Z'']])
   \<and> exportToCSV True (\<lambda>k. True) False (\<lambda>t. ''2024-01-01T12:00:00Z'')
        [\<lparr>URL = ''http://example.com/a'', Image = ''http://example.com/a.jpg'',
          Name = ''Product A'', Price = ''$10.00'', ScrapedAt = (0::nat)\<rparr>,
         \<lparr>URL = ''http://example.com/b'', Image = ''http://example.com/b.jpg'',
          Name = ''Product B'', Price = ''$20.00'', ScrapedAt = (0::nat)\<rparr>]
       = (None, Incomplete)"
  using exportToCSV_rows [of True
      "[\<lparr>URL = ''http://example.com/a'', Image = ''http://example.com/a.jpg'',
          Name = ''Product A'', Price = ''$10.00'', ScrapedAt = (0::nat)\<rparr>,
         \<lparr>URL = ''http://example.com/b'', Image = ''http://example.com/b.jpg'',
          Name = ''Product B'', Price = ''$20.00'', ScrapedAt = (0::nat)\<rparr>]"
      "\<lambda>k. True" True "\<lambda>t. ''2024-01-01T12:00:00Z''"]
    exportToCSV_rows [of True
      "[\<lparr>URL = ''http://example.com/a'', Image = ''http://example.com/a.jpg'',
          Name = ''Product A'', Price = ''$10.00'', ScrapedAt = (0::nat)\<rparr>,
         \<lparr>URL = ''http://example.com/b'', Image = ''http://example.com/b.jpg'',
          Name = ''Product B'', Price = ''$20.00'', ScrapedAt = (0::nat)\<rparr>]"
      "\<lambda>k. True" False "\<lambda>t. ''2024-01-01T12:00:00Z''"]
  by (simp add: row_def)

text \<open>
  An error of a write is returned, and the file is then incomplete whatever the flush
  does.
\<close>

lemma exportToCSV_write_error:
  "exportToCSV True (\<lambda>k. k < 1) flush_ok rfc3339 [p] = (Some RowWriteFailed, Incomplete)"
  by (simp add: exportToCSV_def Flush_def)

subsection \<open>Replacing and collapsing\<close>

lemma ReplaceAll_char: "ReplaceAll s [a] [b] = map (\<lambda>c. if c = a then b else c) s"
proof (induction s)
  case Nil
  then show ?case by (simp add: ReplaceAll_def replace_from_Nil)
next
  case (Cons c s)
  then show ?case
    by (cases "c = a") (simp_all add: ReplaceAll_def replace_from_match replace_from_skip)
qed

lemma ReplaceAll_delete: "ReplaceAll s [a] [] = filter (\<lambda>c. c \<noteq> a) s"
proof (induction s)
  case Nil
  then show ?case by (simp add: ReplaceAll_def replace_from_Nil)
next
  case (Cons c s)
  then show ?case
    by (cases "c = a") (simp_all add: ReplaceAll_def replace_from_match replace_from_skip)
qed

text \<open>Replacing two spaces by one, as a function by pattern matching.\<close>

fun squeeze :: "string \<Rightarrow> string" where
  "squeeze (a # b # s) =
     (if a = CHR 0x20 \<and> b = CHR 0x20 then CHR 0x20 # squeeze s else a # squeeze (b # s))"
| "squeeze [a] = [a]"
| "squeeze [] = []"

lemma ReplaceAll_squeeze: "ReplaceAll s [CHR 0x20, CHR 0x20] [CHR 0x20] = squeeze s"
proof (induction s rule: squeeze.induct)
  case (1 a b s)
  show ?case
  proof (cases "a = CHR 0x20 \<and> b = CHR 0x20")
    case True
    with 1(1) show ?thesis by (simp add: ReplaceAll_def replace_from_match)
  next
    case False
    with 1(2) show ?thesis by (auto simp: ReplaceAll_def replace_from_skip)
  qed
next
  case 3
  then show ?case by (simp add: ReplaceAll_def replace_from_Nil)
next
  case (2 v)
  then show ?case by (simp add: ReplaceAll_def replace_from_skip replace_from_Nil)
qed

lemma Contains_sublist: "Contains s substr \<longleftrightarrow> sublist substr s"
  by (induction s) (simp_all add: sublist_Cons_right)

lemma set_squeeze: "set (squeeze s) \<subseteq> set s"
  by (induction s rule: squeeze.induct) auto

lemma squeeze_Nil_iff [simp]: "squeeze s = [] \<longleftrightarrow> s = []"
  by (induction s rule: squeeze.induct) auto

lemma squeeze_keep_left:
  "CHR 0x20 \<notin> set c \<Longrightarrow> squeeze (c @ r) = c @ squeeze r"
proof (induction c)
  case Nil
  then show ?case by simp
next
  case (Cons a c)
  then show ?case by (cases "c @ r") auto
qed

subsection \<open>Decoding\<close>

lemma byte_asciiSpace: "asciiSpace c \<Longrightarrow> byte c < 0x80 \<and> IsSpace (byte c)"
  by (auto simp: asciiSpace_def byte_def IsSpace_def)

lemma byte_eq_char: "byte c = byte d \<Longrightarrow> c = d"
  by (simp add: byte_def)

lemma IsSpace_byte: "byte c < 0x80 \<Longrightarrow> IsSpace (byte c) \<Longrightarrow> asciiSpace c"
proof -
  assume a: "byte c < 0x80" and s: "IsSpace (byte c)"
  from a s have "byte c = 0x09 \<or> byte c = 0x0A \<or> byte c = 0x0B \<or> byte c = 0x0C
      \<or> byte c = 0x0D \<or> byte c = 0x20"
    by (auto simp: IsSpace_def split: if_splits)
  moreover have "byte (CHR 0x09) = 0x09" "byte (CHR 0x0A) = 0x0A" "byte (CHR 0x0B) = 0x0B"
    "byte (CHR 0x0C) = 0x0C" "byte (CHR 0x0D) = 0x0D" "byte (CHR 0x20) = 0x20"
    by (simp_all add: byte_def)
  ultimately have "byte c = byte (CHR 0x09) \<or> byte c = byte (CHR 0x0A) \<or> byte c = byte (CHR 0x0B)
      \<or> byte c = byte (CHR 0x0C) \<or> byte c = byte (CHR 0x0D) \<or> byte c = byte (CHR 0x20)"
    by presburger
  then show ?thesis
    unfolding asciiSpace_def by (blast dest: byte_eq_char)
qed

lemma Decode_ascii: "s \<noteq> [] \<Longrightarrow> byte (s ! 0) < 0x80 \<Longrightarrow> DecodeRuneInString s = (byte (s ! 0), 1)"
  by (simp add: DecodeRuneInString_def)

lemma Decode_single: "DecodeRuneInString [c] = (if byte c < 0x80 then byte c else RuneError, 1)"
proof (cases "byte c < 0x80")
  case True
  then show ?thesis by (simp add: Decode_ascii)
next
  case False
  have "snd (DecodeRuneInString [c]) = 1"
    using DecodeRuneInString_size [of "[c]"] by simp
  moreover have "fst (DecodeRuneInString [c]) = RuneError"
  proof (cases "first_info (byte c)")
    case None
    with False show ?thesis by (simp add: DecodeRuneInString_def)
  next
    case (Some x)
    obtain sz lo hi where x: "x = (sz, lo, hi)" by (cases x)
    with Some first_info_Some [of "byte c" sz lo hi] have "sz = 2 \<or> sz = 3 \<or> sz = 4" by simp
    then have "decode_tail [c] (byte c) (sz, lo, hi) = (RuneError, 1)"
      by (auto simp: decode_tail_def)
    with False Some x show ?thesis by (simp add: DecodeRuneInString_def)
  qed
  ultimately show ?thesis using False by (simp add: prod_eq_iff)
qed

text \<open>A sequence of more than one byte: what the decoder has checked.\<close>

definition cont :: "char \<Rightarrow> bool" where
  "cont c = (0x80 \<le> byte c \<and> byte c \<le> 0xBF)"

lemma decode_tail_multi:
  assumes "sz = 2 \<or> sz = 3 \<or> sz = 4" and "0x80 \<le> lo" and "hi \<le> 0xBF"
    and "1 < snd (decode_tail s s0 (sz, lo, hi))"
  shows "snd (decode_tail s s0 (sz, lo, hi)) = sz \<and> sz \<le> length s
         \<and> cont (s ! 1) \<and> (3 \<le> sz \<longrightarrow> cont (s ! 2)) \<and> (4 \<le> sz \<longrightarrow> cont (s ! 3))"
proof -
  consider "sz = 2" | "sz = 3" | "sz = 4" using assms(1) by blast
  then show ?thesis
  proof cases
    case 1
    with assms(2-4) show ?thesis
      by (auto simp: decode_tail_def Let_def cont_def split: if_splits)
  next
    case 2
    with assms(2-4) show ?thesis
      by (auto simp: decode_tail_def Let_def cont_def split: if_splits)
  next
    case 3
    with assms(2-4) show ?thesis
      by (auto simp: decode_tail_def Let_def cont_def split: if_splits)
  qed
qed

lemma Decode_multi:
  assumes "1 < snd (DecodeRuneInString s)"
  shows "s \<noteq> [] \<and> 0xC2 \<le> byte (s ! 0) \<and> snd (DecodeRuneInString s) \<le> 4
         \<and> snd (DecodeRuneInString s) \<le> length s
         \<and> (\<forall>j. 1 \<le> j \<and> j < snd (DecodeRuneInString s) \<longrightarrow> cont (s ! j))
         \<and> (\<exists>sz lo hi. first_info (byte (s ! 0)) = Some (sz, lo, hi)
               \<and> sz \<le> length s
               \<and> DecodeRuneInString s = decode_tail s (byte (s ! 0)) (sz, lo, hi))"
proof -
  from assms have ne: "s \<noteq> []" by (auto simp: DecodeRuneInString_def)
  from assms ne have na: "\<not> byte (s ! 0) < 0x80" by (auto simp: DecodeRuneInString_def)
  from assms ne na obtain x where x: "first_info (byte (s ! 0)) = Some x"
    by (cases "first_info (byte (s ! 0))") (auto simp: DecodeRuneInString_def)
  obtain sz lo hi where xx: "x = (sz, lo, hi)" by (cases x)
  from first_info_Some [of "byte (s ! 0)" sz lo hi] x xx
  have fi: "sz = 2 \<or> sz = 3 \<or> sz = 4" "0x80 \<le> lo" "hi \<le> 0xBF" "0xC2 \<le> byte (s ! 0)"
    by simp_all
  have d: "DecodeRuneInString s = decode_tail s (byte (s ! 0)) (sz, lo, hi)"
    using ne na x xx by (simp add: DecodeRuneInString_def)
  from decode_tail_multi [OF fi(1) fi(2) fi(3), of s "byte (s ! 0)"] assms d
  have m: "snd (decode_tail s (byte (s ! 0)) (sz, lo, hi)) = sz" "sz \<le> length s"
    "cont (s ! 1)" "3 \<le> sz \<longrightarrow> cont (s ! 2)" "4 \<le> sz \<longrightarrow> cont (s ! 3)"
    by simp_all
  have c: "cont (s ! j)" if "1 \<le> j \<and> j < sz" for j
  proof -
    from that fi(1) have "j = 1 \<or> (j = 2 \<and> 3 \<le> sz) \<or> (j = 3 \<and> 4 \<le> sz)" by auto
    with m(3-5) show ?thesis by auto
  qed
  from fi(1) have "sz \<le> 4" by auto
  with ne fi(4) m(1,2) c d x xx show ?thesis by simp
qed

lemma decode_tail_append:
  assumes "sz = 2 \<or> sz = 3 \<or> sz = 4" and "sz \<le> length c"
  shows "decode_tail (c @ t) s0 (sz, lo, hi) = decode_tail c s0 (sz, lo, hi)"
proof -
  consider "sz = 2" | "sz = 3" | "sz = 4" using assms(1) by blast
  then show ?thesis
  proof cases
    case 1
    with assms(2) show ?thesis by (simp add: decode_tail_def Let_def nth_append)
  next
    case 2
    with assms(2) show ?thesis by (simp add: decode_tail_def Let_def nth_append)
  next
    case 3
    with assms(2) show ?thesis by (simp add: decode_tail_def Let_def nth_append)
  qed
qed

text \<open>A rune that decodes without error is decoded from its own bytes alone.\<close>

definition valid_rune :: "string \<Rightarrow> bool" where
  "valid_rune c =
     (c \<noteq> [] \<and> snd (DecodeRuneInString c) = length c \<and> (byte (c ! 0) < 0x80 \<or> 1 < length c))"

lemma Decode_append:
  assumes "valid_rune c"
  shows "DecodeRuneInString (c @ t) = DecodeRuneInString c"
proof (cases "byte (c ! 0) < 0x80")
  case True
  with assms show ?thesis by (simp add: valid_rune_def Decode_ascii nth_append)
next
  case False
  with assms have m: "1 < snd (DecodeRuneInString c)" and ne: "c \<noteq> []"
    by (auto simp: valid_rune_def)
  from Decode_multi [OF m] obtain sz lo hi where
    fi: "first_info (byte (c ! 0)) = Some (sz, lo, hi)"
      "DecodeRuneInString c = decode_tail c (byte (c ! 0)) (sz, lo, hi)" "sz \<le> length c"
    by blast
  from first_info_Some [OF fi(1)] have sz: "sz = 2 \<or> sz = 3 \<or> sz = 4" by simp
  have "DecodeRuneInString (c @ t) = decode_tail (c @ t) (byte (c ! 0)) (sz, lo, hi)"
    using ne False fi(1) by (simp add: DecodeRuneInString_def nth_append)
  also have "\<dots> = decode_tail c (byte (c ! 0)) (sz, lo, hi)"
    using sz fi(3) by (rule decode_tail_append)
  finally show ?thesis using fi(2) by simp
qed

lemma valid_rune_ascii: "byte a < 0x80 \<Longrightarrow> valid_rune [a]"
  by (simp add: valid_rune_def Decode_single)

lemma cont_not_RuneStart: "cont c \<Longrightarrow> \<not> RuneStart c \<and> 0x80 \<le> byte c"
  by (auto simp: cont_def RuneStart_def)

lemma valid_rune_bytes:
  assumes "valid_rune c" and "\<not> byte (c ! 0) < 0x80"
  shows "2 \<le> length c \<and> length c \<le> 4 \<and> RuneStart (c ! 0)
         \<and> (\<forall>j. 1 \<le> j \<and> j < length c \<longrightarrow> \<not> RuneStart (c ! j))
         \<and> (\<forall>x \<in> set c. 0x80 \<le> byte x)"
proof -
  from assms have m: "1 < snd (DecodeRuneInString c)" and l: "snd (DecodeRuneInString c) = length c"
    by (auto simp: valid_rune_def)
  from Decode_multi [OF m] l
  have f: "0xC2 \<le> byte (c ! 0)" "length c \<le> 4"
    "\<forall>j. 1 \<le> j \<and> j < length c \<longrightarrow> cont (c ! j)"
    by simp_all
  have "0x80 \<le> byte x" if "x \<in> set c" for x
  proof -
    from that obtain j where j: "j < length c" "x = c ! j" by (auto simp: in_set_conv_nth)
    show ?thesis
    proof (cases j)
      case 0
      with j f(1) show ?thesis by simp
    next
      case (Suc k)
      with j f(3) cont_not_RuneStart [of "c ! j"] show ?thesis by simp
    qed
  qed
  moreover have "\<not> RuneStart (c ! j)" if "1 \<le> j \<and> j < length c" for j
    using f(3) that cont_not_RuneStart by blast
  moreover have "RuneStart (c ! 0)" using f(1) by (simp add: RuneStart_def)
  ultimately show ?thesis using m l f(2) by auto
qed

lemma valid_rune_ascii_single: "valid_rune c \<Longrightarrow> byte (c ! 0) < 0x80 \<Longrightarrow> length c = 1"
  by (auto simp: valid_rune_def Decode_ascii)

text \<open>
  \<^verbatim>\<open>utf8.ValidString\<close>: the string is valid UTF-8 when decoding it rune by rune never
  meets an error (an error is a byte that is not ASCII and decodes with width 1).
\<close>

function ValidString :: "string \<Rightarrow> bool" where
  "ValidString s =
     (if s = [] then True
      else if 0x80 \<le> byte (s ! 0) \<and> snd (DecodeRuneInString s) = 1 then False
      else ValidString (drop (snd (DecodeRuneInString s)) s))"
  by pat_completeness auto
termination
proof (relation "measure length")
  show "wf (measure length)" by simp
next
  fix s :: string
  assume "s \<noteq> []"
  then have "1 \<le> snd (DecodeRuneInString s)" using DecodeRuneInString_size [of s] by simp
  with \<open>s \<noteq> []\<close> show "(drop (snd (DecodeRuneInString s)) s, s) \<in> measure length" by simp
qed

declare ValidString.simps [simp del]

subsection \<open>Decoding the last rune\<close>

lemma DecodeLast_ascii:
  "s \<noteq> [] \<Longrightarrow> byte (last s) < 0x80 \<Longrightarrow> DecodeLastRuneInString s = (byte (last s), 1)"
  by (simp add: DecodeLastRuneInString_def last_conv_nth)

text \<open>The width reported for the last rune is the width of decoding from where it starts.\<close>

lemma DecodeLast_width:
  assumes "s \<noteq> []"
  shows "snd (DecodeRuneInString (drop (length s - snd (DecodeLastRuneInString s)) s))
           = snd (DecodeLastRuneInString s)"
proof (cases "byte (last s) < 0x80")
  case True
  have "drop (length s - 1) s = [last s]"
    using assms by (metis append_butlast_last_id append_eq_conv_conj length_butlast)
  with True assms show ?thesis by (simp add: DecodeLast_ascii Decode_single)
next
  case False
  let ?st = "find_start s (length s - 4) (length s - 1)"
  obtain r z where d: "DecodeRuneInString (drop ?st s) = (r, z)"
    by (cases "DecodeRuneInString (drop ?st s)")
  have l: "byte (s ! (length s - 1)) = byte (last s)" using assms by (simp add: last_conv_nth)
  show ?thesis
  proof (cases "?st + z = length s")
    case True
    then have "DecodeLastRuneInString s = (r, z)"
      using assms False d l by (simp add: DecodeLastRuneInString_def Let_def)
    moreover from True have "length s - z = ?st" by simp
    ultimately show ?thesis using d by simp
  next
    case ne: False
    then have dl: "DecodeLastRuneInString s = (RuneError, 1)"
      using assms False d l by (simp add: DecodeLastRuneInString_def Let_def)
    have "drop (length s - 1) s = [last s]"
      using assms by (metis append_butlast_last_id append_eq_conv_conj length_butlast)
    with dl show ?thesis by (simp add: Decode_single)
  qed
qed

lemma DecodeLast_first_ascii:
  assumes "s \<noteq> []" and "byte (s ! (length s - snd (DecodeLastRuneInString s))) < 0x80"
  shows "DecodeLastRuneInString s = (byte (last s), 1) \<and> byte (last s) < 0x80"
proof -
  let ?z = "snd (DecodeLastRuneInString s)"
  from DecodeLastRuneInString_size [OF assms(1)] have z: "1 \<le> ?z" "?z \<le> length s" by simp_all
  then have ne: "drop (length s - ?z) s \<noteq> []" using assms(1) by simp
  have "drop (length s - ?z) s ! 0 = s ! (length s - ?z)" using z by simp
  with assms(2) Decode_ascii [OF ne] have "snd (DecodeRuneInString (drop (length s - ?z) s)) = 1"
    by simp
  with DecodeLast_width [OF assms(1)] have "?z = 1" by simp
  with assms have "byte (last s) < 0x80" by (simp add: last_conv_nth)
  with assms(1) show ?thesis by (simp add: DecodeLast_ascii)
qed

text \<open>The last rune of a string that ends in a valid rune is that rune.\<close>

lemma find_start_rune:
  assumes "2 \<le> length c" and "length c \<le> 4" and "RuneStart (c ! 0)"
    and "\<forall>j. 1 \<le> j \<and> j < length c \<longrightarrow> \<not> RuneStart (c ! j)"
  shows "find_start (p @ c) (length (p @ c) - 4) (length (p @ c) - 1) = length p"
proof -
  let ?s = "p @ c"
  have nth: "?s ! (length p + j) = c ! j" for j by (simp add: nth_append)
  have r0: "RuneStart (?s ! length p)" using nth [of 0] assms(3) by simp
  consider "length c = 2" | "length c = 3" | "length c = 4" using assms(1,2) by linarith
  then show ?thesis
  proof cases
    case 1
    then have k: "length ?s - 1 = Suc (length p)" by simp
    have "find_start ?s (length ?s - 4) (Suc (length p)) = length p"
      using r0 1 by simp
    with k show ?thesis by simp
  next
    case 2
    then have k: "length ?s - 1 = Suc (Suc (length p))" by simp
    have r1: "\<not> RuneStart (?s ! Suc (length p))" using nth [of 1] assms(4) 2 by simp
    have "find_start ?s (length ?s - 4) (Suc (Suc (length p))) = length p"
      using r0 r1 2 by simp
    with k show ?thesis by simp
  next
    case 3
    then have k: "length ?s - 1 = Suc (Suc (Suc (length p)))" by simp
    have r1: "\<not> RuneStart (?s ! Suc (length p))" using nth [of 1] assms(4) 3 by simp
    have r2: "\<not> RuneStart (?s ! Suc (Suc (length p)))" using nth [of 2] assms(4) 3 by simp
    have "find_start ?s (length ?s - 4) (Suc (Suc (Suc (length p)))) = length p"
      using r0 r1 r2 3 by simp
    with k show ?thesis by simp
  qed
qed

lemma DecodeLast_append:
  assumes "valid_rune c"
  shows "DecodeLastRuneInString (p @ c) = DecodeRuneInString c"
proof (cases "byte (c ! 0) < 0x80")
  case True
  with assms have "length c = 1" by (rule valid_rune_ascii_single)
  then obtain a where c: "c = [a]" by (cases c) auto
  with True show ?thesis by (simp add: DecodeLast_ascii Decode_single)
next
  case False
  from valid_rune_bytes [OF assms False]
  have b: "2 \<le> length c" "length c \<le> 4" "RuneStart (c ! 0)"
    "\<forall>j. 1 \<le> j \<and> j < length c \<longrightarrow> \<not> RuneStart (c ! j)" "\<forall>x \<in> set c. 0x80 \<le> byte x"
    by simp_all
  from b(1) have ne: "c \<noteq> []" by auto
  then have "last (p @ c) \<in> set c" by simp
  with b(5) have hi: "\<not> byte (last (p @ c)) < 0x80" by force
  have l: "byte ((p @ c) ! (length (p @ c) - 1)) = byte (last (p @ c))"
    using ne by (simp add: last_conv_nth)
  have st: "find_start (p @ c) (length (p @ c) - 4) (length (p @ c) - 1) = length p"
    using b(1-4) by (rule find_start_rune)
  from assms have w: "snd (DecodeRuneInString c) = length c" by (simp add: valid_rune_def)
  obtain r where d: "DecodeRuneInString c = (r, length c)"
    using w by (cases "DecodeRuneInString c") simp
  show ?thesis
    using ne hi l st d by (simp add: DecodeLastRuneInString_def Let_def)
qed

subsection \<open>Valid strings\<close>

lemma ValidString_Nil [simp]: "ValidString []"
  by (subst ValidString.simps) simp

lemma Decode_lead:
  "t \<noteq> [] \<Longrightarrow> \<not> byte (t ! 0) < 0x80 \<Longrightarrow> first_info (byte (t ! 0)) = Some x \<Longrightarrow>
     DecodeRuneInString t = decode_tail t (byte (t ! 0)) x"
  by (simp add: DecodeRuneInString_def)

lemma ValidString_unfold:
  "s \<noteq> [] \<Longrightarrow>
     ValidString s \<longleftrightarrow>
       \<not> (0x80 \<le> byte (s ! 0) \<and> snd (DecodeRuneInString s) = 1)
       \<and> ValidString (drop (snd (DecodeRuneInString s)) s)"
  by (subst ValidString.simps) simp

lemma ValidString_step:
  assumes "ValidString s" and "s \<noteq> []"
  shows "valid_rune (take (snd (DecodeRuneInString s)) s)
         \<and> ValidString (drop (snd (DecodeRuneInString s)) s)
         \<and> DecodeRuneInString (take (snd (DecodeRuneInString s)) s) = DecodeRuneInString s"
proof -
  let ?w = "snd (DecodeRuneInString s)"
  from assms have ok: "\<not> (0x80 \<le> byte (s ! 0) \<and> ?w = 1)" and v: "ValidString (drop ?w s)"
    using ValidString_unfold [OF assms(2)] by blast+
  from DecodeRuneInString_size [OF assms(2)] have w: "1 \<le> ?w" "?w \<le> length s" by simp_all
  then have tne: "take ?w s \<noteq> []" using assms(2) by auto
  have t0: "take ?w s ! 0 = s ! 0" using w by simp
  have eq: "DecodeRuneInString (take ?w s) = DecodeRuneInString s"
  proof (cases "byte (s ! 0) < 0x80")
    case True
    with tne t0 assms(2) show ?thesis by (simp add: Decode_ascii)
  next
    case False
    with ok w have m: "1 < ?w" by simp
    from Decode_multi [OF m] obtain sz lo hi where
      fi: "first_info (byte (s ! 0)) = Some (sz, lo, hi)"
        "DecodeRuneInString s = decode_tail s (byte (s ! 0)) (sz, lo, hi)" "sz \<le> length s"
      by blast
    from first_info_Some [OF fi(1)] have sz: "sz = 2 \<or> sz = 3 \<or> sz = 4"
      and lh: "0x80 \<le> lo" "hi \<le> 0xBF" by simp_all
    from decode_tail_multi [OF sz lh, of s "byte (s ! 0)"] m fi(2) have wsz: "?w = sz" by simp
    then have len: "sz \<le> length (take ?w s)" using w by simp
    have "DecodeRuneInString (take ?w s) = decode_tail (take ?w s) (byte (s ! 0)) (sz, lo, hi)"
      using Decode_lead [OF tne, of "(sz, lo, hi)"] t0 False fi(1) by simp
    also have "\<dots> = decode_tail (take ?w s @ drop ?w s) (byte (s ! 0)) (sz, lo, hi)"
      using decode_tail_append [OF sz len, of "drop ?w s" "byte (s ! 0)" lo hi] by simp
    also have "\<dots> = DecodeRuneInString s"
      using fi(2) by simp
    finally show ?thesis .
  qed
  have "valid_rune (take ?w s)"
    using tne eq w t0 ok by (auto simp: valid_rune_def)
  with v eq show ?thesis by simp
qed

lemma ValidString_append_rune:
  assumes "valid_rune c" and "ValidString t"
  shows "ValidString (c @ t)"
proof -
  from assms(1) have ne: "c \<noteq> []" and w: "snd (DecodeRuneInString c) = length c"
    and k: "byte (c ! 0) < 0x80 \<or> 1 < length c"
    by (simp_all add: valid_rune_def)
  have d: "DecodeRuneInString (c @ t) = DecodeRuneInString c"
    using assms(1) by (rule Decode_append)
  have "(c @ t) ! 0 = c ! 0" using ne by (simp add: nth_append)
  with ne w k d assms(2) show ?thesis
    using ValidString_unfold [of "c @ t"] by auto
qed

lemma ValidString_last_rune:
  "ValidString s \<Longrightarrow> s \<noteq> [] \<Longrightarrow> \<exists>p c. s = p @ c \<and> valid_rune c \<and> ValidString p"
proof (induction s rule: length_induct)
  case (1 s)
  let ?w = "snd (DecodeRuneInString s)"
  from ValidString_step [OF "1.prems"]
  have c: "valid_rune (take ?w s)" and t: "ValidString (drop ?w s)" by simp_all
  from DecodeRuneInString_size [OF "1.prems"(2)] have w: "1 \<le> ?w" "?w \<le> length s" by simp_all
  show ?case
  proof (cases "drop ?w s = []")
    case True
    then have "s = [] @ take ?w s" by simp
    with c show ?thesis using ValidString_Nil by blast
  next
    case False
    have "length (drop ?w s) < length s" using w "1.prems"(2) by simp
    with 1 t False obtain p c' where
      p: "drop ?w s = p @ c'" "valid_rune c'" "ValidString p" by blast
    have "s = (take ?w s @ p) @ c'" using p(1) by (metis append.assoc append_take_drop_id)
    moreover have "ValidString (take ?w s @ p)" using c p(3) by (rule ValidString_append_rune)
    ultimately show ?thesis using p(2) by blast
  qed
qed

lemma ValidString_ascii_Cons: "byte a < 0x80 \<Longrightarrow> ValidString (a # s) \<longleftrightarrow> ValidString s"
  using ValidString_unfold [of "a # s"] by (simp add: Decode_ascii)

lemma ValidString_dropWhile: "ValidString s \<Longrightarrow> ValidString (dropWhile asciiSpace s)"
proof (induction s)
  case Nil
  then show ?case by simp
next
  case (Cons a s)
  then show ?case using byte_asciiSpace [of a] by (auto simp: ValidString_ascii_Cons)
qed

lemma ValidString_snoc_ascii:
  assumes "ValidString (p @ [a])" and "byte a < 0x80"
  shows "ValidString p"
proof -
  from ValidString_last_rune [OF assms(1)] obtain q c where
    q: "p @ [a] = q @ c" "valid_rune c" "ValidString q" by blast
  have "c = [a]"
  proof (cases "byte (c ! 0) < 0x80")
    case True
    with q(2) have "length c = 1" by (rule valid_rune_ascii_single)
    with q(1) show ?thesis
      by (metis append_butlast_last_id last_appendR last_snoc length_0_conv length_Suc_conv
          list.sel(1) list.simps(3) One_nat_def butlast.simps(2) self_append_conv2)
  next
    case False
    from valid_rune_bytes [OF q(2) False] have "\<forall>x \<in> set c. 0x80 \<le> byte x" and "c \<noteq> []"
      by auto
    then have "0x80 \<le> byte (last c)" by simp
    moreover have "last c = a" using q(1) \<open>c \<noteq> []\<close> by (metis last_appendR last_snoc)
    ultimately show ?thesis using assms(2) by simp
  qed
  with q show ?thesis by simp
qed

lemma ValidString_drop_trailing:
  "ValidString s \<Longrightarrow> ValidString (rev (dropWhile asciiSpace (rev s)))"
proof (induction s rule: rev_induct)
  case Nil
  then show ?case by simp
next
  case (snoc a s)
  show ?case
  proof (cases "asciiSpace a")
    case True
    then have "byte a < 0x80" using byte_asciiSpace by blast
    with snoc.prems have "ValidString s" by (rule ValidString_snoc_ascii)
    with snoc.IH True show ?thesis by simp
  next
    case False
    with snoc.prems show ?thesis by simp
  qed
qed

subsection \<open>Trimming\<close>

lemma indexFunc_from_Some:
  "indexFunc_from f False i s = Some k \<Longrightarrow>
     \<exists>m. k = i + m \<and> m < length s \<and> \<not> f (fst (DecodeRuneInString (drop m s)))"
proof (induction f False i s rule: indexFunc_from.induct)
  case (1 f i s)
  show ?case
  proof (cases "s = []")
    case True
    with "1.prems" show ?thesis by (subst (asm) indexFunc_from.simps) simp
  next
    case ne: False
    let ?w = "snd (DecodeRuneInString s)"
    from DecodeRuneInString_size [OF ne] have w: "1 \<le> ?w" "?w \<le> length s" by simp_all
    show ?thesis
    proof (cases "f (fst (DecodeRuneInString s))")
      case False
      with ne "1.prems" have "k = i" by (subst (asm) indexFunc_from.simps) simp
      with ne False show ?thesis by (intro exI [of _ 0]) simp
    next
      case True
      with ne "1.prems" have "indexFunc_from f False (i + ?w) (drop ?w s) = Some k"
        by (subst (asm) indexFunc_from.simps) simp
      from "1.hyps" [OF ne _ this] True obtain m where
        m: "k = i + ?w + m" "m < length (drop ?w s)"
          "\<not> f (fst (DecodeRuneInString (drop m (drop ?w s))))"
        by auto
      from m(2) have "?w + m < length s" by simp
      with m(1,3) show ?thesis by (intro exI [of _ "?w + m"]) (simp add: add.commute)
    qed
  qed
qed

lemma TrimLeftFunc_drop: "\<exists>m. TrimLeftFunc s f = drop m s"
proof (cases "indexFunc s f False")
  case None
  then have "TrimLeftFunc s f = drop (length s) s" by (simp add: TrimLeftFunc_def)
  then show ?thesis by blast
next
  case (Some i)
  then show ?thesis by (auto simp: TrimLeftFunc_def)
qed

lemma TrimLeftFunc_first:
  "TrimLeftFunc s f \<noteq> [] \<Longrightarrow> \<not> f (fst (DecodeRuneInString (TrimLeftFunc s f)))"
proof (cases "indexFunc s f False")
  case None
  then show "TrimLeftFunc s f \<noteq> [] \<Longrightarrow> ?thesis" by (simp add: TrimLeftFunc_def)
next
  case (Some i)
  from indexFunc_from_Some [of f 0 s i] Some
  have "\<not> f (fst (DecodeRuneInString (drop i s)))" by (auto simp: indexFunc_def)
  with Some show ?thesis by (simp add: TrimLeftFunc_def)
qed

lemma TrimLeftFunc_id:
  "s = [] \<or> \<not> f (fst (DecodeRuneInString s)) \<Longrightarrow> TrimLeftFunc s f = s"
  unfolding TrimLeftFunc_def indexFunc_def
  by (subst indexFunc_from.simps) auto

lemma lastIndexFunc_from_Some:
  "lastIndexFunc_from s f False i = Some k \<Longrightarrow>
     \<exists>j. 0 < j \<and> j \<le> i \<and> j \<le> length s
       \<and> k = j - snd (DecodeLastRuneInString (take j s))
       \<and> \<not> f (fst (DecodeLastRuneInString (take j s)))"
proof (induction s f False i rule: lastIndexFunc_from.induct)
  case (1 s f i)
  show ?case
  proof (cases "i = 0 \<or> length s < i")
    case True
    with "1.prems" show ?thesis by (subst (asm) lastIndexFunc_from.simps) simp
  next
    case ok: False
    let ?z = "snd (DecodeLastRuneInString (take i s))"
    show ?thesis
    proof (cases "f (fst (DecodeLastRuneInString (take i s)))")
      case False
      with ok "1.prems" have "k = i - ?z" by (subst (asm) lastIndexFunc_from.simps) simp
      with ok False show ?thesis by (intro exI [of _ i]) simp
    next
      case True
      with ok "1.prems" have "lastIndexFunc_from s f False (i - ?z) = Some k"
        by (subst (asm) lastIndexFunc_from.simps) simp
      from "1.hyps" [OF ok _ this] True obtain j where
        "0 < j" "j \<le> i - ?z" "j \<le> length s" "k = j - snd (DecodeLastRuneInString (take j s))"
        "\<not> f (fst (DecodeLastRuneInString (take j s)))"
        by auto
      then show ?thesis by (intro exI [of _ j]) simp
    qed
  qed
qed

lemma TrimRightFunc_take: "\<exists>n. TrimRightFunc s f = take n s"
  unfolding TrimRightFunc_def by (cases "lastIndexFunc s f False") (auto intro: exI [of _ 0])

lemma TrimRightFunc_Nil [simp]: "TrimRightFunc [] f = []"
  using TrimRightFunc_take [of "[]" f] by auto

lemma Decode_high_bytes:
  assumes "s \<noteq> []" and "0x80 \<le> byte (s ! 0)" and "j < snd (DecodeRuneInString s)"
  shows "0x80 \<le> byte (s ! j)"
proof (cases "snd (DecodeRuneInString s) = 1")
  case True
  with assms show ?thesis by simp
next
  case False
  with assms(3) have m: "1 < snd (DecodeRuneInString s)" by simp
  from Decode_multi [OF m] assms(3)
  have "j = 0 \<or> cont (s ! j)" by (cases j) auto
  with assms(2) cont_not_RuneStart show ?thesis by blast
qed

lemma TrimRightFunc_last:
  assumes "TrimRightFunc s IsSpace \<noteq> []"
  shows "\<not> asciiSpace (last (TrimRightFunc s IsSpace))"
proof -
  from assms obtain k where k: "lastIndexFunc s IsSpace False = Some k"
    by (cases "lastIndexFunc s IsSpace False") (auto simp: TrimRightFunc_def)
  from lastIndexFunc_from_Some [of s IsSpace "length s" k] k obtain j where
    j: "0 < j" "j \<le> length s" "k = j - snd (DecodeLastRuneInString (take j s))"
      "\<not> IsSpace (fst (DecodeLastRuneInString (take j s)))"
    by (auto simp: lastIndexFunc_def)
  let ?t = "take j s"
  let ?z = "snd (DecodeLastRuneInString ?t)"
  from j have tne: "?t \<noteq> []" by auto
  from DecodeLastRuneInString_size [OF tne] j(2) have z: "1 \<le> ?z" "?z \<le> j" by simp_all
  with j have kj: "k < j" "k < length s" by simp_all
  have tk: "?t ! (length ?t - ?z) = s ! k" using j z by simp
  show ?thesis
  proof (cases "0x80 \<le> byte (s ! k)")
    case False
    then have r: "TrimRightFunc s IsSpace = take (k + 1) s" using k by (simp add: TrimRightFunc_def)
    from False tk have "byte (?t ! (length ?t - ?z)) < 0x80" by simp
    from DecodeLast_first_ascii [OF tne this]
    have d: "DecodeLastRuneInString ?t = (byte (last ?t), 1)" "byte (last ?t) < 0x80" by simp_all
    then have "?z = 1" by simp
    with j(3) z have "j = k + 1" by simp
    with r have "last (TrimRightFunc s IsSpace) = last ?t" by simp
    moreover from d j(4) have "\<not> asciiSpace (last ?t)" using byte_asciiSpace by fastforce
    ultimately show ?thesis by simp
  next
    case True
    let ?w = "snd (DecodeRuneInString (drop k s))"
    from True have r: "TrimRightFunc s IsSpace = take (k + ?w) s"
      using k by (simp add: TrimRightFunc_def)
    have dne: "drop k s \<noteq> []" using kj by simp
    from DecodeRuneInString_size [OF dne] have w: "1 \<le> ?w" "?w \<le> length s - k" by simp_all
    have d0: "drop k s ! 0 = s ! k" using kj by simp
    have "0x80 \<le> byte (drop k s ! (?w - 1))"
      using Decode_high_bytes [OF dne, of "?w - 1"] d0 True w by simp
    moreover have "drop k s ! (?w - 1) = s ! (k + ?w - 1)" using w kj by simp
    moreover have "last (take (k + ?w) s) = s ! (k + ?w - 1)"
    proof -
      have len: "length (take (k + ?w) s) = k + ?w" using w kj by simp
      then have "take (k + ?w) s \<noteq> []" using w by auto
      then have "last (take (k + ?w) s) = take (k + ?w) s ! (k + ?w - 1)"
        using len by (simp add: last_conv_nth)
      also have "\<dots> = s ! (k + ?w - 1)" using w by simp
      finally show ?thesis .
    qed
    ultimately have "0x80 \<le> byte (last (TrimRightFunc s IsSpace))" using r by simp
    then show ?thesis using byte_asciiSpace by fastforce
  qed
qed

lemma TrimRightFunc_id:
  assumes "s \<noteq> []" and "\<not> f (fst (DecodeLastRuneInString s))"
  shows "TrimRightFunc s f = s"
proof -
  let ?z = "snd (DecodeLastRuneInString s)"
  from DecodeLastRuneInString_size [OF assms(1)] have z: "1 \<le> ?z" "?z \<le> length s" by simp_all
  have k: "lastIndexFunc s f False = Some (length s - ?z)"
    unfolding lastIndexFunc_def using assms by (subst lastIndexFunc_from.simps) simp
  let ?k = "length s - ?z"
  have w: "snd (DecodeRuneInString (drop ?k s)) = ?z" using assms(1) by (rule DecodeLast_width)
  show ?thesis
  proof (cases "0x80 \<le> byte (s ! ?k)")
    case True
    with k w z show ?thesis by (simp add: TrimRightFunc_def)
  next
    case False
    then have "byte (s ! ?k) < 0x80" by simp
    from DecodeLast_first_ascii [OF assms(1) this] have "?z = 1" by simp
    with False k z show ?thesis by (simp add: TrimRightFunc_def)
  qed
qed

lemma dropWhile_rev_id: "s \<noteq> [] \<Longrightarrow> \<not> P (last s) \<Longrightarrow> rev (dropWhile P (rev s)) = s"
  by (cases s rule: rev_cases) auto

lemma rev_dropWhile_rev_take: "\<exists>n. rev (dropWhile P (rev s)) = take n s"
proof -
  have "rev (dropWhile P (rev s)) = take (length s - length (takeWhile P (rev s))) s"
    by (metis dropWhile_eq_drop rev_drop rev_rev_ident length_rev)
  then show ?thesis by blast
qed

lemma TrimSpace_unfold:
  "TrimSpace s =
     (if dropWhile asciiSpace s \<noteq> [] \<and> 0x80 \<le> byte (hd (dropWhile asciiSpace s))
      then TrimFunc (dropWhile asciiSpace s) IsSpace
      else if rev (dropWhile asciiSpace (rev (dropWhile asciiSpace s))) \<noteq> []
              \<and> 0x80 \<le> byte (last (rev (dropWhile asciiSpace (rev (dropWhile asciiSpace s)))))
        then TrimRightFunc (rev (dropWhile asciiSpace (rev (dropWhile asciiSpace s)))) IsSpace
        else rev (dropWhile asciiSpace (rev (dropWhile asciiSpace s))))"
  unfolding TrimSpace_def Let_def by (rule refl)

lemma TrimSpace_range: "\<exists>m n. TrimSpace s = take n (drop m s)"
proof -
  let ?s1 = "dropWhile asciiSpace s"
  let ?s2 = "rev (dropWhile asciiSpace (rev ?s1))"
  have s1: "?s1 = drop (length (takeWhile asciiSpace s)) s" by (rule dropWhile_eq_drop)
  obtain n2 where s2: "?s2 = take n2 ?s1" using rev_dropWhile_rev_take by blast
  obtain m1 where l: "TrimLeftFunc ?s1 IsSpace = drop m1 ?s1" using TrimLeftFunc_drop by blast
  obtain n1 where r: "TrimRightFunc (TrimLeftFunc ?s1 IsSpace) IsSpace
      = take n1 (TrimLeftFunc ?s1 IsSpace)"
    using TrimRightFunc_take by blast
  obtain n3 where r3: "TrimRightFunc ?s2 IsSpace = take n3 ?s2" using TrimRightFunc_take by blast
  consider (a) "TrimSpace s = TrimFunc ?s1 IsSpace" | (b) "TrimSpace s = TrimRightFunc ?s2 IsSpace"
    | (c) "TrimSpace s = ?s2"
    unfolding TrimSpace_unfold by (meson if_P if_not_P)
  then show ?thesis
  proof cases
    case a
    then have "TrimSpace s = take n1 (drop (m1 + length (takeWhile asciiSpace s)) s)"
      using l r s1 by (simp add: TrimFunc_def)
    then show ?thesis by blast
  next
    case b
    then have "TrimSpace s = take (min n3 n2) (drop (length (takeWhile asciiSpace s)) s)"
      using r3 s2 s1 by (simp add: min.commute)
    then show ?thesis by blast
  next
    case c
    then have "TrimSpace s = take n2 (drop (length (takeWhile asciiSpace s)) s)"
      using s2 s1 by simp
    then show ?thesis by blast
  qed
qed

lemma hd_take_nonempty: "take n s \<noteq> [] \<Longrightarrow> hd (take n s) = hd s"
  by (cases s; cases n) auto

lemma TrimSpace_ends:
  assumes "TrimSpace s \<noteq> []"
  shows "\<not> asciiSpace (hd (TrimSpace s)) \<and> \<not> asciiSpace (last (TrimSpace s))"
proof -
  let ?s1 = "dropWhile asciiSpace s"
  let ?s2 = "rev (dropWhile asciiSpace (rev ?s1))"
  have h1: "\<not> asciiSpace (hd ?s1)" if "?s1 \<noteq> []" using that by (rule hd_dropWhile)
  have l2: "\<not> asciiSpace (last ?s2)" if "?s2 \<noteq> []"
    using that hd_dropWhile [of asciiSpace "rev ?s1"] by (simp add: last_rev)
  obtain n2 where s2: "?s2 = take n2 ?s1" using rev_dropWhile_rev_take by blast
  have h2: "\<not> asciiSpace (hd ?s2)" if "?s2 \<noteq> []"
    using that s2 h1 hd_take_nonempty [of n2 ?s1] by auto
  show ?thesis
  proof (cases "?s1 \<noteq> [] \<and> 0x80 \<le> byte (hd ?s1)")
    case True
    then have "TrimSpace s = TrimFunc ?s1 IsSpace"
      unfolding TrimSpace_unfold by (rule if_P)
    then have t: "TrimSpace s = TrimRightFunc (TrimLeftFunc ?s1 IsSpace) IsSpace"
      by (simp only: TrimFunc_def)
    let ?l = "TrimLeftFunc ?s1 IsSpace"
    obtain n where n: "TrimRightFunc ?l IsSpace = take n ?l" using TrimRightFunc_take by blast
    from assms t n have lne: "?l \<noteq> []" by auto
    from TrimLeftFunc_first [OF lne] have f: "\<not> IsSpace (fst (DecodeRuneInString ?l))" .
    have "\<not> asciiSpace (hd ?l)"
    proof
      assume a: "asciiSpace (hd ?l)"
      then have "byte (?l ! 0) < 0x80" using byte_asciiSpace lne by (simp add: hd_conv_nth)
      with Decode_ascii [OF lne] have "DecodeRuneInString ?l = (byte (hd ?l), 1)"
        using lne by (simp add: hd_conv_nth)
      with f a byte_asciiSpace show False by simp
    qed
    moreover have "hd (TrimSpace s) = hd ?l"
      using assms t n hd_take_nonempty [of n ?l] by simp
    moreover have "\<not> asciiSpace (last (TrimSpace s))"
      using assms t TrimRightFunc_last [of ?l] by simp
    ultimately show ?thesis by simp
  next
    case False
    show ?thesis
    proof (cases "?s2 \<noteq> [] \<and> 0x80 \<le> byte (last ?s2)")
      case True
      have t: "TrimSpace s = TrimRightFunc ?s2 IsSpace"
        by (simp only: TrimSpace_unfold if_not_P [OF False] if_P [OF True])
      obtain n where n: "TrimRightFunc ?s2 IsSpace = take n ?s2" using TrimRightFunc_take by blast
      have "hd (TrimSpace s) = hd ?s2" using assms t n hd_take_nonempty [of n ?s2] by simp
      moreover have "\<not> asciiSpace (last (TrimSpace s))"
        using assms t TrimRightFunc_last [of ?s2] by simp
      ultimately show ?thesis using h2 True by simp
    next
      case f2: False
      have t: "TrimSpace s = ?s2"
        by (simp only: TrimSpace_unfold if_not_P [OF False] if_not_P [OF f2])
      with assms h2 l2 show ?thesis by simp
    qed
  qed
qed

lemma TrimSpace_Nil [simp]: "TrimSpace [] = []"
  by (simp add: TrimSpace_def)

lemma TrimSpace_id:
  assumes "\<not> IsSpace (fst (DecodeRuneInString s))" and "\<not> IsSpace (fst (DecodeLastRuneInString s))"
    and "s \<noteq> []"
  shows "TrimSpace s = s"
proof -
  have h: "\<not> asciiSpace (hd s)"
  proof
    assume a: "asciiSpace (hd s)"
    then have "byte (s ! 0) < 0x80" using byte_asciiSpace assms(3) by (simp add: hd_conv_nth)
    with Decode_ascii [OF assms(3)] have "DecodeRuneInString s = (byte (hd s), 1)"
      using assms(3) by (simp add: hd_conv_nth)
    with assms(1) a byte_asciiSpace show False by simp
  qed
  have l: "\<not> asciiSpace (last s)"
  proof
    assume a: "asciiSpace (last s)"
    then have "byte (last s) < 0x80" using byte_asciiSpace by blast
    with DecodeLast_ascii [OF assms(3)] assms(2) a byte_asciiSpace show False by simp
  qed
  have s1: "dropWhile asciiSpace s = s" using h assms(3) by (cases s) auto
  have s2: "rev (dropWhile asciiSpace (rev s)) = s" using l assms(3) by (rule dropWhile_rev_id [rotated])
  have l': "TrimLeftFunc s IsSpace = s" using assms(1) by (simp add: TrimLeftFunc_id)
  have r': "TrimRightFunc s IsSpace = s" using assms(3,2) by (rule TrimRightFunc_id)
  have "TrimSpace s =
     (if s \<noteq> [] \<and> 0x80 \<le> byte (hd s) then TrimFunc s IsSpace
      else if s \<noteq> [] \<and> 0x80 \<le> byte (last s) then TrimRightFunc s IsSpace else s)"
    by (simp only: TrimSpace_unfold s1 s2)
  also have "\<dots> = s" by (simp add: TrimFunc_def l' r')
  finally show ?thesis .
qed

subsection \<open>The clean-up after trimming\<close>

definition tidy :: "string \<Rightarrow> string" where
  "tidy t = collapse_spaces (ReplaceAll (ReplaceAll t [CHR 0x0A] [CHR 0x20]) [CHR 0x09] [])"

lemma cleanPrice_tidy: "cleanPrice price = tidy (TrimSpace price)"
  by (simp add: cleanPrice_def tidy_def)

lemma collapse_unfold:
  "collapse_spaces s =
     (if Contains s [CHR 0x20, CHR 0x20] then collapse_spaces (squeeze s) else s)"
  by (subst collapse_spaces.simps) (simp add: ReplaceAll_squeeze)

lemma collapse_stop: "\<not> Contains s [CHR 0x20, CHR 0x20] \<Longrightarrow> collapse_spaces s = s"
  by (subst collapse_unfold) simp

lemma collapse_no_double: "\<not> Contains (collapse_spaces s) [CHR 0x20, CHR 0x20]"
proof (induction s rule: collapse_spaces.induct)
  case (1 s)
  show ?case
  proof (cases "Contains s [CHR 0x20, CHR 0x20]")
    case True
    with 1 have "\<not> Contains (collapse_spaces (squeeze s)) [CHR 0x20, CHR 0x20]"
      by (simp add: ReplaceAll_squeeze)
    with True show ?thesis by (subst collapse_unfold) simp
  next
    case False
    then show ?thesis by (simp add: collapse_stop)
  qed
qed

lemma set_collapse: "set (collapse_spaces s) \<subseteq> set s"
proof (induction s rule: collapse_spaces.induct)
  case (1 s)
  show ?case
  proof (cases "Contains s [CHR 0x20, CHR 0x20]")
    case True
    with 1 have "set (collapse_spaces (squeeze s)) \<subseteq> set (squeeze s)"
      by (simp add: ReplaceAll_squeeze)
    with True set_squeeze [of s] show ?thesis by (subst collapse_unfold) auto
  next
    case False
    then show ?thesis by (simp add: collapse_stop)
  qed
qed

lemma Contains_none: "CHR 0x20 \<notin> set c \<Longrightarrow> \<not> Contains c [CHR 0x20, CHR 0x20]"
  by (induction c) auto

lemma Contains_keep_left:
  "CHR 0x20 \<notin> set c \<Longrightarrow>
     Contains (c @ r) [CHR 0x20, CHR 0x20] \<longleftrightarrow> Contains r [CHR 0x20, CHR 0x20]"
  by (induction c) auto

lemma Contains_keep_right:
  "c \<noteq> [] \<Longrightarrow> CHR 0x20 \<notin> set c \<Longrightarrow>
     Contains (p @ c) [CHR 0x20, CHR 0x20] \<longleftrightarrow> Contains p [CHR 0x20, CHR 0x20]"
proof (induction p)
  case Nil
  then show ?case by (simp add: Contains_none)
next
  case (Cons a p)
  show ?case
  proof (cases p)
    case Nil
    with Cons.prems show ?thesis by (cases c) (auto simp: Contains_none)
  next
    case (Cons b p')
    with Cons.IH Cons.prems show ?thesis by simp
  qed
qed

lemma squeeze_id: "CHR 0x20 \<notin> set c \<Longrightarrow> squeeze c = c"
  by (induction c rule: squeeze.induct) auto

lemma squeeze_keep_right:
  "c \<noteq> [] \<Longrightarrow> CHR 0x20 \<notin> set c \<Longrightarrow> squeeze (p @ c) = squeeze p @ c"
proof (induction p rule: squeeze.induct)
  case (1 a b s)
  then show ?case by simp
next
  case 3
  then show ?case by (simp add: squeeze_id)
next
  case (2 v)
  then show ?case by (cases c) (auto simp: squeeze_id)
qed

lemma collapse_keep_left:
  "CHR 0x20 \<notin> set c \<Longrightarrow> collapse_spaces (c @ r) = c @ collapse_spaces r"
proof (induction r rule: collapse_spaces.induct)
  case (1 r)
  show ?case
  proof (cases "Contains r [CHR 0x20, CHR 0x20]")
    case True
    with 1 have "collapse_spaces (c @ squeeze r) = c @ collapse_spaces (squeeze r)"
      by (simp add: ReplaceAll_squeeze)
    with True "1.prems" show ?thesis
      by (subst collapse_unfold, subst (2) collapse_unfold)
         (simp add: Contains_keep_left squeeze_keep_left)
  next
    case False
    with "1.prems" show ?thesis by (simp add: collapse_stop Contains_keep_left)
  qed
qed

lemma collapse_keep_right:
  "c \<noteq> [] \<Longrightarrow> CHR 0x20 \<notin> set c \<Longrightarrow> collapse_spaces (p @ c) = collapse_spaces p @ c"
proof (induction p rule: collapse_spaces.induct)
  case (1 p)
  show ?case
  proof (cases "Contains p [CHR 0x20, CHR 0x20]")
    case True
    with 1 have "collapse_spaces (squeeze p @ c) = collapse_spaces (squeeze p) @ c"
      by (simp add: ReplaceAll_squeeze)
    with True "1.prems" show ?thesis
      by (subst collapse_unfold, subst (2) collapse_unfold)
         (simp add: Contains_keep_right squeeze_keep_right)
  next
    case False
    with "1.prems" show ?thesis by (simp add: collapse_stop Contains_keep_right)
  qed
qed

definition plain :: "string \<Rightarrow> bool" where
  "plain c = (CHR 0x0A \<notin> set c \<and> CHR 0x09 \<notin> set c \<and> CHR 0x20 \<notin> set c)"

lemma plain_not_asciiSpace: "\<forall>x \<in> set c. \<not> asciiSpace x \<Longrightarrow> plain c"
  by (auto simp: plain_def asciiSpace_def)

lemma map_id_notin: "a \<notin> set c \<Longrightarrow> map (\<lambda>x. if x = a then b else x) c = c"
  by (induction c) auto

lemma filter_id_notin: "a \<notin> set c \<Longrightarrow> filter (\<lambda>x. x \<noteq> a) c = c"
  by (induction c) auto

lemma tidy_keep_left: "plain c \<Longrightarrow> tidy (c @ r) = c @ tidy r"
  by (simp add: tidy_def plain_def ReplaceAll_char ReplaceAll_delete map_id_notin
      filter_id_notin collapse_keep_left)

lemma tidy_keep_right: "c \<noteq> [] \<Longrightarrow> plain c \<Longrightarrow> tidy (p @ c) = tidy p @ c"
  by (simp add: tidy_def plain_def ReplaceAll_char ReplaceAll_delete map_id_notin
      filter_id_notin collapse_keep_right)

lemma tidy_Nil [simp]: "tidy [] = []"
  by (simp add: tidy_def ReplaceAll_char ReplaceAll_delete collapse_stop)

lemma tidy_clean:
  "CHR 0x0A \<notin> set (tidy t) \<and> CHR 0x09 \<notin> set (tidy t)
   \<and> \<not> Contains (tidy t) [CHR 0x20, CHR 0x20]"
proof -
  let ?u = "ReplaceAll (ReplaceAll t [CHR 0x0A] [CHR 0x20]) [CHR 0x09] []"
  have "CHR 0x0A \<notin> set ?u" "CHR 0x09 \<notin> set ?u"
    by (auto simp: ReplaceAll_char ReplaceAll_delete)
  with set_collapse [of ?u] collapse_no_double [of ?u] show ?thesis
    unfolding tidy_def by blast
qed

lemma tidy_id:
  "CHR 0x0A \<notin> set t \<Longrightarrow> CHR 0x09 \<notin> set t \<Longrightarrow> \<not> Contains t [CHR 0x20, CHR 0x20] \<Longrightarrow>
     tidy t = t"
  by (simp add: tidy_def ReplaceAll_char ReplaceAll_delete map_id_notin filter_id_notin
      collapse_stop)

lemma Contains_range:
  "Contains (take n (drop m s)) x \<Longrightarrow> Contains s x"
proof -
  assume "Contains (take n (drop m s)) x"
  then have "sublist x (take n (drop m s))" by (simp add: Contains_sublist)
  moreover have "sublist (take n (drop m s)) s"
    by (meson sublist_drop sublist_take sublist_order.order_trans)
  ultimately show ?thesis
    using sublist_order.order_trans by (auto simp: Contains_sublist)
qed

lemma cleanPrice_twice: "cleanPrice (cleanPrice s) = TrimSpace (cleanPrice s)"
proof -
  let ?out = "cleanPrice s"
  obtain m n where r: "TrimSpace ?out = take n (drop m ?out)" using TrimSpace_range by blast
  have c: "CHR 0x0A \<notin> set ?out" "CHR 0x09 \<notin> set ?out" "\<not> Contains ?out [CHR 0x20, CHR 0x20]"
    using tidy_clean [of "TrimSpace s"] by (simp_all add: cleanPrice_tidy)
  have "set (take n (drop m ?out)) \<subseteq> set ?out"
    by (meson set_drop_subset set_take_subset subset_trans)
  with c(1,2) r have "CHR 0x0A \<notin> set (TrimSpace ?out)" "CHR 0x09 \<notin> set (TrimSpace ?out)"
    by auto
  moreover have "\<not> Contains (TrimSpace ?out) [CHR 0x20, CHR 0x20]"
    using c(3) r Contains_range by metis
  ultimately have "tidy (TrimSpace ?out) = TrimSpace ?out" by (rule tidy_id)
  then show ?thesis by (simp add: cleanPrice_tidy)
qed

lemma cleanPrice_ends:
  "\<not> prefix [CHR 0x20] (cleanPrice s) \<and> \<not> suffix [CHR 0x20] (cleanPrice s)"
proof (cases "TrimSpace s = []")
  case True
  then show ?thesis by (simp add: cleanPrice_tidy)
next
  case False
  let ?t = "TrimSpace s"
  from TrimSpace_ends [OF False] have e: "\<not> asciiSpace (hd ?t)" "\<not> asciiSpace (last ?t)"
    by simp_all
  have ph: "plain [hd ?t]" and pl: "plain [last ?t]"
    using e by (simp_all add: plain_not_asciiSpace)
  have "tidy ?t = tidy ([hd ?t] @ tl ?t)" using False by simp
  also have "\<dots> = [hd ?t] @ tidy (tl ?t)" using ph by (rule tidy_keep_left)
  finally have a: "tidy ?t = hd ?t # tidy (tl ?t)" by simp
  have "tidy ?t = tidy (butlast ?t @ [last ?t])" using False by simp
  also have "\<dots> = tidy (butlast ?t) @ [last ?t]" using pl by (intro tidy_keep_right) simp
  finally have b: "tidy ?t = tidy (butlast ?t) @ [last ?t]" .
  have "hd ?t \<noteq> CHR 0x20" "last ?t \<noteq> CHR 0x20" using e by (auto simp: asciiSpace_def)
  then have "\<not> prefix [CHR 0x20] (tidy ?t)" "\<not> suffix [CHR 0x20] (tidy ?t)"
    using a b by (auto simp: suffix_def)
  then show ?thesis by (simp add: cleanPrice_tidy)
qed

subsection \<open>Trimming a valid string\<close>

lemma ValidString_snoc_rune:
  "ValidString p \<Longrightarrow> valid_rune c \<Longrightarrow> ValidString (p @ c)"
proof (induction p rule: length_induct)
  case (1 p)
  show ?case
  proof (cases "p = []")
    case True
    with "1.prems"(2) ValidString_append_rune [of c "[]"] show ?thesis by simp
  next
    case False
    let ?w = "snd (DecodeRuneInString p)"
    from ValidString_step [OF "1.prems"(1) False]
    have c1: "valid_rune (take ?w p)" and t: "ValidString (drop ?w p)" by simp_all
    from DecodeRuneInString_size [OF False] have "1 \<le> ?w" by simp
    then have "length (drop ?w p) < length p" using False by simp
    with 1 t have "ValidString (drop ?w p @ c)" by blast
    with c1 have "ValidString (take ?w p @ (drop ?w p @ c))" by (rule ValidString_append_rune)
    then show ?thesis by (metis append.assoc append_take_drop_id)
  qed
qed

lemma ValidString_first_rune:
  assumes "ValidString t" and "t \<noteq> []"
  shows "\<exists>c r. t = c @ r \<and> valid_rune c \<and> DecodeRuneInString c = DecodeRuneInString t"
proof -
  let ?w = "snd (DecodeRuneInString t)"
  from ValidString_step [OF assms]
  have "valid_rune (take ?w t)" "DecodeRuneInString (take ?w t) = DecodeRuneInString t"
    by simp_all
  moreover have "t = take ?w t @ drop ?w t" by simp
  ultimately show ?thesis by blast
qed

lemma indexFunc_from_valid:
  "ValidString s \<Longrightarrow> indexFunc_from f False i s = Some k \<Longrightarrow> ValidString (drop (k - i) s)"
proof (induction f False i s rule: indexFunc_from.induct)
  case (1 f i s)
  show ?case
  proof (cases "s = []")
    case True
    then show ?thesis by simp
  next
    case ne: False
    let ?w = "snd (DecodeRuneInString s)"
    show ?thesis
    proof (cases "f (fst (DecodeRuneInString s))")
      case False
      with ne "1.prems"(2) have "k = i" by (subst (asm) indexFunc_from.simps) simp
      with "1.prems"(1) show ?thesis by simp
    next
      case True
      with ne "1.prems"(2) have r: "indexFunc_from f False (i + ?w) (drop ?w s) = Some k"
        by (subst (asm) indexFunc_from.simps) simp
      from ValidString_step [OF "1.prems"(1) ne] have v: "ValidString (drop ?w s)" by simp
      from indexFunc_from_Some [OF r] obtain m where m: "k = i + ?w + m" by blast
      from "1.hyps" [OF ne _ v r] True have "ValidString (drop (k - (i + ?w)) (drop ?w s))"
        by simp
      with m show ?thesis by (simp add: add.commute)
    qed
  qed
qed

lemma TrimLeftFunc_valid: "ValidString s \<Longrightarrow> ValidString (TrimLeftFunc s f)"
proof (cases "indexFunc s f False")
  case None
  then show ?thesis by (simp add: TrimLeftFunc_def)
next
  case (Some k)
  assume "ValidString s"
  from indexFunc_from_valid [OF this, of f 0 k] Some show ?thesis
    by (simp add: TrimLeftFunc_def indexFunc_def)
qed

lemma lastIndexFunc_from_valid:
  "ValidString (take i s) \<Longrightarrow> i \<le> length s \<Longrightarrow> lastIndexFunc_from s f False i = Some k \<Longrightarrow>
     \<exists>c. k + length c \<le> i \<and> take (k + length c) s = take k s @ c \<and> valid_rune c
       \<and> \<not> f (fst (DecodeRuneInString c)) \<and> ValidString (take k s)"
proof (induction s f False i rule: lastIndexFunc_from.induct)
  case (1 s f i)
  show ?case
  proof (cases "i = 0 \<or> length s < i")
    case True
    with "1.prems"(3) show ?thesis by (subst (asm) lastIndexFunc_from.simps) simp
  next
    case ok: False
    then have tne: "take i s \<noteq> []" by auto
    from ValidString_last_rune [OF "1.prems"(1) tne] obtain p c where
      pc: "take i s = p @ c" "valid_rune c" "ValidString p" by blast
    from pc(2) have cne: "c \<noteq> []" and cw: "snd (DecodeRuneInString c) = length c"
      by (simp_all add: valid_rune_def)
    have dl: "DecodeLastRuneInString (take i s) = DecodeRuneInString c"
      unfolding pc(1) using pc(2) by (rule DecodeLast_append)
    have li: "length p + length c = i" using pc(1) ok
      by (metis length_append length_take min.absorb2 not_less linorder_le_cases)
    then have p: "p = take (i - length c) s"
      using pc(1) by (metis add_diff_cancel_right' append_eq_conv_conj take_take min.absorb1
          le_add1)
    show ?thesis
    proof (cases "f (fst (DecodeRuneInString c))")
      case False
      with ok "1.prems"(3) dl cw have k: "k = i - length c"
        by (subst (asm) lastIndexFunc_from.simps) simp
      with li have "k + length c = i" by simp
      moreover have "take i s = take k s @ c" using pc(1) p k by simp
      ultimately show ?thesis using pc(2,3) p k False by (intro exI [of _ c]) simp
    next
      case True
      with ok "1.prems"(3) dl cw
      have r: "lastIndexFunc_from s f False (i - length c) = Some k"
        by (subst (asm) lastIndexFunc_from.simps) simp
      have v: "ValidString (take (i - length c) s)" using pc(3) p by simp
      have ft: "f (fst (DecodeLastRuneInString (take i s))) \<noteq> False" using True dl by simp
      have e: "snd (DecodeLastRuneInString (take i s)) = length c" using dl cw by simp
      have le: "i - length c \<le> length s" using "1.prems"(2) by simp
      from this v r have "\<exists>c'. k + length c' \<le> i - length c
          \<and> take (k + length c') s = take k s @ c' \<and> valid_rune c'
          \<and> \<not> f (fst (DecodeRuneInString c')) \<and> ValidString (take k s)"
        using "1.hyps" [OF ok ft] unfolding e by blast
      then obtain c' where
        "k + length c' \<le> i - length c" "take (k + length c') s = take k s @ c'"
        "valid_rune c'" "\<not> f (fst (DecodeRuneInString c'))" "ValidString (take k s)"
        by blast
      then show ?thesis by (intro exI [of _ c']) simp
    qed
  qed
qed

lemma TrimRightFunc_valid:
  assumes "ValidString s"
  shows "TrimRightFunc s f = []
         \<or> (\<exists>p c. TrimRightFunc s f = p @ c \<and> ValidString p \<and> valid_rune c
               \<and> \<not> f (fst (DecodeRuneInString c)))"
proof (cases "lastIndexFunc s f False")
  case None
  then show ?thesis by (simp add: TrimRightFunc_def)
next
  case (Some k)
  from lastIndexFunc_from_valid [of "length s" s f k] assms Some obtain c where
    c: "k + length c \<le> length s" "take (k + length c) s = take k s @ c" "valid_rune c"
      "\<not> f (fst (DecodeRuneInString c))" "ValidString (take k s)"
    by (auto simp: lastIndexFunc_def)
  from c(3) have cne: "c \<noteq> []" and cw: "snd (DecodeRuneInString c) = length c"
    by (simp_all add: valid_rune_def)
  have dk: "drop k s = c @ drop (k + length c) s"
  proof -
    have "s = (take k s @ c) @ drop (k + length c) s" using c(2) by (metis append_take_drop_id)
    then have "drop k s = drop k ((take k s @ c) @ drop (k + length c) s)" by simp
    also have "\<dots> = c @ drop (k + length c) s" using c(1) by simp
    finally show ?thesis .
  qed
  have sk: "s ! k = c ! 0"
  proof -
    have "s ! k = drop k s ! 0" using c(1) cne by simp
    also have "\<dots> = c ! 0" using dk cne by (simp add: nth_append)
    finally show ?thesis .
  qed
  have w: "snd (DecodeRuneInString (drop k s)) = length c"
    using dk Decode_append [OF c(3)] cw by simp
  have "TrimRightFunc s f = take (k + length c) s"
  proof (cases "0x80 \<le> byte (s ! k)")
    case True
    with Some w show ?thesis by (simp add: TrimRightFunc_def)
  next
    case False
    with sk have "byte (c ! 0) < 0x80" by simp
    with c(3) have "length c = 1" by (rule valid_rune_ascii_single)
    with False Some show ?thesis by (simp add: TrimRightFunc_def)
  qed
  with c show ?thesis by auto
qed

text \<open>
  A string has good ends when it is empty, or begins with a validly encoded rune that is
  not white space and ends with one.
\<close>

definition good_ends :: "string \<Rightarrow> bool" where
  "good_ends t =
     (t = [] \<or>
      ((\<exists>c r. t = c @ r \<and> valid_rune c \<and> \<not> IsSpace (fst (DecodeRuneInString c)))
       \<and> (\<exists>p c. t = p @ c \<and> valid_rune c \<and> \<not> IsSpace (fst (DecodeRuneInString c)))))"

lemma ascii_rune:
  assumes "byte a < 0x80" and "\<not> asciiSpace a"
  shows "valid_rune [a] \<and> \<not> IsSpace (fst (DecodeRuneInString [a]))"
  using assms IsSpace_byte [of a] by (auto simp: valid_rune_ascii Decode_single)

lemma TrimSpace_valid:
  assumes "ValidString s"
  shows "good_ends (TrimSpace s)"
proof (cases "TrimSpace s = []")
  case True
  then show ?thesis by (simp add: good_ends_def)
next
  case tne: False
  let ?s1 = "dropWhile asciiSpace s"
  let ?s2 = "rev (dropWhile asciiSpace (rev ?s1))"
  have v1: "ValidString ?s1" using assms by (rule ValidString_dropWhile)
  have v2: "ValidString ?s2" using v1 by (rule ValidString_drop_trailing)
  have h1: "\<not> asciiSpace (hd ?s1)" if "?s1 \<noteq> []" using that by (rule hd_dropWhile)
  have l2: "\<not> asciiSpace (last ?s2)" if "?s2 \<noteq> []"
    using that hd_dropWhile [of asciiSpace "rev ?s1"] by (simp add: last_rev)
  obtain n2 where s2: "?s2 = take n2 ?s1" using rev_dropWhile_rev_take by blast
  have hd2: "hd ?s2 = hd ?s1" if "?s2 \<noteq> []" using that s2 hd_take_nonempty [of n2 ?s1] by simp
  show ?thesis
  proof (cases "?s1 \<noteq> [] \<and> 0x80 \<le> byte (hd ?s1)")
    case True
    then have "TrimSpace s = TrimFunc ?s1 IsSpace"
      unfolding TrimSpace_unfold by (rule if_P)
    then have t: "TrimSpace s = TrimRightFunc (TrimLeftFunc ?s1 IsSpace) IsSpace"
      by (simp only: TrimFunc_def)
    let ?l = "TrimLeftFunc ?s1 IsSpace"
    have vl: "ValidString ?l" using v1 by (rule TrimLeftFunc_valid)
    obtain n where n: "TrimRightFunc ?l IsSpace = take n ?l" using TrimRightFunc_take by blast
    from tne t n have lne: "?l \<noteq> []" by auto
    from TrimLeftFunc_first [OF lne] have f: "\<not> IsSpace (fst (DecodeRuneInString ?l))" .
    from TrimRightFunc_valid [OF vl, of IsSpace] tne t obtain p c where
      pc: "TrimSpace s = p @ c" "ValidString p" "valid_rune c"
        "\<not> IsSpace (fst (DecodeRuneInString c))"
      by auto
    have vt: "ValidString (TrimSpace s)" unfolding pc(1) using pc(2,3) by (rule ValidString_snoc_rune)
    from ValidString_first_rune [OF vt tne] obtain c1 r1 where
      c1: "TrimSpace s = c1 @ r1" "valid_rune c1"
        "DecodeRuneInString c1 = DecodeRuneInString (TrimSpace s)"
      by blast
    have "?l = TrimSpace s @ drop n ?l" using t n by simp
    then have "?l = c1 @ (r1 @ drop n ?l)" using c1(1) by simp
    then have "DecodeRuneInString ?l = DecodeRuneInString c1"
      using Decode_append [OF c1(2)] by metis
    with f have "\<not> IsSpace (fst (DecodeRuneInString c1))" by simp
    with c1 pc show ?thesis unfolding good_ends_def by blast
  next
    case False
    have s2ne_hd: "byte (hd ?s2) < 0x80 \<and> \<not> asciiSpace (hd ?s2)" if "?s2 \<noteq> []"
    proof -
      from that s2 have "?s1 \<noteq> []" by auto
      with False h1 hd2 [OF that] show ?thesis by auto
    qed
    show ?thesis
    proof (cases "?s2 \<noteq> [] \<and> 0x80 \<le> byte (last ?s2)")
      case True
      have t: "TrimSpace s = TrimRightFunc ?s2 IsSpace"
        by (simp only: TrimSpace_unfold if_not_P [OF False] if_P [OF True])
      obtain n where n: "TrimRightFunc ?s2 IsSpace = take n ?s2" using TrimRightFunc_take by blast
      have "hd (TrimSpace s) = hd ?s2" using tne t n hd_take_nonempty [of n ?s2] by simp
      with s2ne_hd True have "byte (hd (TrimSpace s)) < 0x80" "\<not> asciiSpace (hd (TrimSpace s))"
        by simp_all
      from ascii_rune [OF this] have "valid_rune [hd (TrimSpace s)]"
        "\<not> IsSpace (fst (DecodeRuneInString [hd (TrimSpace s)]))" by simp_all
      moreover have "TrimSpace s = [hd (TrimSpace s)] @ tl (TrimSpace s)" using tne by simp
      moreover from TrimRightFunc_valid [OF v2, of IsSpace] tne t obtain p c where
        "TrimSpace s = p @ c" "valid_rune c" "\<not> IsSpace (fst (DecodeRuneInString c))"
        by auto
      ultimately show ?thesis unfolding good_ends_def by blast
    next
      case f2: False
      have t: "TrimSpace s = ?s2"
        by (simp only: TrimSpace_unfold if_not_P [OF False] if_not_P [OF f2])
      with tne have ne2: "?s2 \<noteq> []" by simp
      from s2ne_hd [OF ne2] t have "byte (hd (TrimSpace s)) < 0x80" "\<not> asciiSpace (hd (TrimSpace s))"
        by simp_all
      from ascii_rune [OF this] have "valid_rune [hd (TrimSpace s)]"
        "\<not> IsSpace (fst (DecodeRuneInString [hd (TrimSpace s)]))" by simp_all
      moreover have "TrimSpace s = [hd (TrimSpace s)] @ tl (TrimSpace s)" using tne by simp
      moreover have "\<not> 0x80 \<le> byte (last ?s2)" using f2 ne2 by blast
      then have "byte (last ?s2) < 0x80" by simp
      with l2 [OF ne2] have "byte (last (TrimSpace s)) < 0x80"
        "\<not> asciiSpace (last (TrimSpace s))" unfolding t by blast+
      from ascii_rune [OF this] have "valid_rune [last (TrimSpace s)]"
        "\<not> IsSpace (fst (DecodeRuneInString [last (TrimSpace s)]))" by simp_all
      moreover have "TrimSpace s = butlast (TrimSpace s) @ [last (TrimSpace s)]" using tne by simp
      ultimately show ?thesis unfolding good_ends_def by blast
    qed
  qed
qed

lemma rune_plain:
  assumes "valid_rune c" and "\<not> IsSpace (fst (DecodeRuneInString c))"
  shows "plain c"
proof (cases "byte (c ! 0) < 0x80")
  case True
  with assms(1) have "length c = 1" by (rule valid_rune_ascii_single)
  then obtain a where c: "c = [a]" by (cases c) auto
  with True assms(2) byte_asciiSpace [of a] have "\<not> asciiSpace a" by (auto simp: Decode_single)
  with c show ?thesis by (simp add: plain_not_asciiSpace)
next
  case False
  from valid_rune_bytes [OF assms(1) False] have "\<forall>x \<in> set c. 0x80 \<le> byte x" by simp
  then have "\<forall>x \<in> set c. \<not> asciiSpace x" using byte_asciiSpace by fastforce
  then show ?thesis by (rule plain_not_asciiSpace)
qed

lemma good_ends_tidy: "good_ends t \<Longrightarrow> good_ends (tidy t)"
proof (cases "t = []")
  case True
  then show ?thesis by (simp add: good_ends_def)
next
  case False
  assume "good_ends t"
  with False obtain c r p c' where
    a: "t = c @ r" "valid_rune c" "\<not> IsSpace (fst (DecodeRuneInString c))"
    and b: "t = p @ c'" "valid_rune c'" "\<not> IsSpace (fst (DecodeRuneInString c'))"
    unfolding good_ends_def by blast
  have "tidy t = c @ tidy r" unfolding a(1) using rune_plain [OF a(2,3)] by (rule tidy_keep_left)
  moreover have "c' \<noteq> []" using b(2) by (simp add: valid_rune_def)
  then have "tidy t = tidy p @ c'"
    unfolding b(1) using rune_plain [OF b(2,3)] by (rule tidy_keep_right)
  ultimately show ?thesis using a(2,3) b(2,3) unfolding good_ends_def by blast
qed

lemma good_ends_TrimSpace: "good_ends t \<Longrightarrow> TrimSpace t = t"
proof (cases "t = []")
  case True
  then show ?thesis by simp
next
  case False
  assume "good_ends t"
  with False obtain c r p c' where
    a: "t = c @ r" "valid_rune c" "\<not> IsSpace (fst (DecodeRuneInString c))"
    and b: "t = p @ c'" "valid_rune c'" "\<not> IsSpace (fst (DecodeRuneInString c'))"
    unfolding good_ends_def by blast
  have "DecodeRuneInString t = DecodeRuneInString c" unfolding a(1) using a(2) by (rule Decode_append)
  moreover have "DecodeLastRuneInString t = DecodeRuneInString c'"
    unfolding b(1) using b(2) by (rule DecodeLast_append)
  ultimately show ?thesis using a(3) b(3) False by (intro TrimSpace_id) simp_all
qed

lemma cleanPrice_idem_valid: "ValidString s \<Longrightarrow> cleanPrice (cleanPrice s) = cleanPrice s"
proof -
  assume "ValidString s"
  then have "good_ends (TrimSpace s)" by (rule TrimSpace_valid)
  then have "good_ends (cleanPrice s)" unfolding cleanPrice_tidy by (rule good_ends_tidy)
  then have "TrimSpace (cleanPrice s) = cleanPrice s" by (rule good_ends_TrimSpace)
  then show ?thesis by (simp add: cleanPrice_twice)
qed

subsection \<open>Two inputs evaluated\<close>

lemma byte_vals:
  "byte (CHR 0xC2) = 0xC2" "byte (CHR 0xA0) = 0xA0" "byte (CHR 0x09) = 0x09"
  "byte (CHR 0xE2) = 0xE2" "byte (CHR 0x82) = 0x82" "byte (CHR 0xAC) = 0xAC"
  "byte (CHR 0x20) = 0x20" "byte (CHR ''1'') = 0x31" "byte (CHR ''9'') = 0x39"
  by (simp_all add: byte_def)

lemma ce_dec1: "DecodeRuneInString [CHR 0xC2, CHR 0x09, CHR 0xA0] = (RuneError, 1)"
  by (simp add: DecodeRuneInString_def first_info_def decode_tail_def byte_vals)

lemma ce_dec2: "DecodeLastRuneInString [CHR 0xC2, CHR 0x09, CHR 0xA0] = (RuneError, 1)"
  by (simp add: DecodeLastRuneInString_def DecodeRuneInString_def first_info_def
      decode_tail_def byte_vals RuneStart_def eval_nat_numeral)

lemma ce_dec3: "DecodeRuneInString [CHR 0xC2, CHR 0xA0] = (0xA0, 2)"
  by (simp add: DecodeRuneInString_def first_info_def decode_tail_def byte_vals)

lemma ce_trim1:
  "TrimSpace [CHR 0xC2, CHR 0x09, CHR 0xA0] = [CHR 0xC2, CHR 0x09, CHR 0xA0]"
  by (rule TrimSpace_id) (simp_all add: ce_dec1 ce_dec2 IsSpace_def RuneError_def)

lemma ce_tidy1: "tidy [CHR 0xC2, CHR 0x09, CHR 0xA0] = [CHR 0xC2, CHR 0xA0]"
  by (simp add: tidy_def ReplaceAll_char ReplaceAll_delete collapse_stop)

lemma ce_trim2: "TrimSpace [CHR 0xC2, CHR 0xA0] = []"
proof -
  have "indexFunc_from IsSpace False 0 [CHR 0xC2, CHR 0xA0] = None"
    by (subst indexFunc_from.simps, simp add: ce_dec3 IsSpace_def,
        subst indexFunc_from.simps, simp)
  then have "TrimLeftFunc [CHR 0xC2, CHR 0xA0] IsSpace = []"
    by (simp add: TrimLeftFunc_def indexFunc_def)
  then show ?thesis
    by (simp add: TrimSpace_def TrimFunc_def asciiSpace_def byte_vals TrimRightFunc_Nil)
qed

lemma ce_clean1: "cleanPrice [CHR 0xC2, CHR 0x09, CHR 0xA0] = [CHR 0xC2, CHR 0xA0]"
  by (simp add: cleanPrice_tidy ce_trim1 ce_tidy1)

lemma ce_clean2: "cleanPrice [CHR 0xC2, CHR 0xA0] = []"
  by (simp add: cleanPrice_tidy ce_trim2)

lemma ce: "cleanPrice (cleanPrice [CHR 0xC2, CHR 0x09, CHR 0xA0])
             \<noteq> cleanPrice [CHR 0xC2, CHR 0x09, CHR 0xA0]"
  by (simp add: ce_clean1 ce_clean2)

text \<open>A valid input: a space, the euro sign, two digits, a tab and a newline.\<close>

lemma w_dec: "DecodeRuneInString (CHR 0xE2 # CHR 0x82 # CHR 0xAC # t) = (0x20AC, 3)"
  by (simp add: DecodeRuneInString_def first_info_def decode_tail_def byte_vals)

lemma w_valid:
  "ValidString [CHR 0x20, CHR 0xE2, CHR 0x82, CHR 0xAC, CHR ''1'', CHR ''9'', CHR 0x09, CHR 0x0A]"
proof -
  have "ValidString [CHR ''1'', CHR ''9'', CHR 0x09, CHR 0x0A]"
    by (simp add: ValidString_ascii_Cons byte_def)
  then have "ValidString [CHR 0xE2, CHR 0x82, CHR 0xAC, CHR ''1'', CHR ''9'', CHR 0x09, CHR 0x0A]"
    by (subst ValidString_unfold) (simp_all add: w_dec)
  then show ?thesis by (simp add: ValidString_ascii_Cons byte_def)
qed

lemma w_trim:
  "TrimSpace [CHR 0x20, CHR 0xE2, CHR 0x82, CHR 0xAC, CHR ''1'', CHR ''9'', CHR 0x09, CHR 0x0A]
     = [CHR 0xE2, CHR 0x82, CHR 0xAC, CHR ''1'', CHR ''9'']"
proof -
  let ?t = "[CHR 0xE2, CHR 0x82, CHR 0xAC, CHR ''1'', CHR ''9'', CHR 0x09, CHR 0x0A]"
  have l: "TrimLeftFunc ?t IsSpace = ?t"
    by (rule TrimLeftFunc_id) (simp_all add: w_dec IsSpace_def)
  have "lastIndexFunc_from ?t IsSpace False 7 = Some 4"
    by (subst lastIndexFunc_from.simps, simp add: DecodeLast_ascii byte_def IsSpace_def,
        subst lastIndexFunc_from.simps, simp add: DecodeLast_ascii byte_def IsSpace_def,
        subst lastIndexFunc_from.simps, simp add: DecodeLast_ascii byte_def IsSpace_def)
  moreover have "length ?t = 7" by simp
  ultimately have "lastIndexFunc ?t IsSpace False = Some 4" by (simp only: lastIndexFunc_def)
  then have r: "TrimRightFunc ?t IsSpace = [CHR 0xE2, CHR 0x82, CHR 0xAC, CHR ''1'', CHR ''9'']"
    by (simp add: TrimRightFunc_def byte_def)
  show ?thesis
    by (simp add: TrimSpace_def TrimFunc_def asciiSpace_def byte_vals l r)
qed

lemma w_clean:
  "cleanPrice [CHR 0x20, CHR 0xE2, CHR 0x82, CHR 0xAC, CHR ''1'', CHR ''9'', CHR 0x09, CHR 0x0A]
     = [CHR 0xE2, CHR 0x82, CHR 0xAC, CHR ''1'', CHR ''9'']"
  by (simp add: cleanPrice_tidy w_trim tidy_def ReplaceAll_char ReplaceAll_delete collapse_stop)

subsection \<open>Idempotence and shape of the cleaned price\<close>

text \<open>
  Claim C8, as stated: \<^verbatim>\<open>cleanPrice\<close> is idempotent on every input string. A Go string
  is any sequence of bytes, and the claim fails on one that is not valid UTF-8. In the
  three bytes \<^verbatim>\<open>C2 09 A0\<close> the tab sits between the two bytes that encode U+00A0, the
  no-break space. \<^verbatim>\<open>TrimSpace\<close> decodes \<^verbatim>\<open>C2\<close> and \<^verbatim>\<open>A0\<close> as invalid bytes, which are not
  white space, and trims nothing; deleting the tab then joins the two bytes, so that the
  result is the no-break space, which a second call trims away.
\<close>

theorem cleanPrice_idempotent_counterexample:
  "cleanPrice [CHR 0xC2, CHR 0x09, CHR 0xA0] = [CHR 0xC2, CHR 0xA0]
   \<and> cleanPrice (cleanPrice [CHR 0xC2, CHR 0x09, CHR 0xA0]) = []
   \<and> cleanPrice (cleanPrice [CHR 0xC2, CHR 0x09, CHR 0xA0])
       \<noteq> cleanPrice [CHR 0xC2, CHR 0x09, CHR 0xA0]"
  by (simp add: ce_clean1 ce_clean2)

text \<open>
  Claim C8, amended: for every input that is valid UTF-8, \<^verbatim>\<open>cleanPrice\<close> applied twice
  gives what it gives applied once; for every input whatever, a second application only
  trims, and the output neither begins nor ends with a space and contains no newline, no
  tab and no two consecutive spaces.
\<close>

theorem cleanPrice_idempotent:
  "(ValidString s \<longrightarrow> cleanPrice (cleanPrice s) = cleanPrice s)
   \<and> cleanPrice (cleanPrice s) = TrimSpace (cleanPrice s)
   \<and> \<not> prefix [CHR 0x20] (cleanPrice s) \<and> \<not> suffix [CHR 0x20] (cleanPrice s)
   \<and> CHR 0x0A \<notin> set (cleanPrice s) \<and> CHR 0x09 \<notin> set (cleanPrice s)
   \<and> \<not> Contains (cleanPrice s) [CHR 0x20, CHR 0x20]"
proof -
  have "CHR 0x0A \<notin> set (cleanPrice s)" "CHR 0x09 \<notin> set (cleanPrice s)"
    "\<not> Contains (cleanPrice s) [CHR 0x20, CHR 0x20]"
    using tidy_clean [of "TrimSpace s"] by (simp_all add: cleanPrice_tidy)
  with cleanPrice_idem_valid [of s] cleanPrice_twice [of s] cleanPrice_ends [of s]
  show ?thesis by blast
qed

text \<open>
  The amended claim at a space, the euro sign (\<^verbatim>\<open>E2 82 AC\<close>), \<^verbatim>\<open>19\<close>, a tab and a newline.
\<close>

theorem cleanPrice_idempotent_witness:
  "ValidString [CHR 0x20, CHR 0xE2, CHR 0x82, CHR 0xAC, CHR ''1'', CHR ''9'', CHR 0x09, CHR 0x0A]
   \<and> cleanPrice [CHR 0x20, CHR 0xE2, CHR 0x82, CHR 0xAC, CHR ''1'', CHR ''9'', CHR 0x09, CHR 0x0A]
       = [CHR 0xE2, CHR 0x82, CHR 0xAC, CHR ''1'', CHR ''9'']
   \<and> cleanPrice (cleanPrice
         [CHR 0x20, CHR 0xE2, CHR 0x82, CHR 0xAC, CHR ''1'', CHR ''9'', CHR 0x09, CHR 0x0A])
       = cleanPrice [CHR 0x20, CHR 0xE2, CHR 0x82, CHR 0xAC, CHR ''1'', CHR ''9'', CHR 0x09, CHR 0x0A]"
  using cleanPrice_idempotent
    [of "[CHR 0x20, CHR 0xE2, CHR 0x82, CHR 0xAC, CHR ''1'', CHR ''9'', CHR 0x09, CHR 0x0A]"]
    w_valid
  by (simp only: w_clean simp_thms)

end
